theory Spec2Isabelle
  imports Main "HOL-Library.Word"
begin

unbundle bit_operations_syntax

section \<open>The WebM/Opus demuxer of \<^verbatim>\<open>src/demuxers/WebmOpus.js\<close>\<close>

subsection \<open>JavaScript values used by the demuxer\<close>

text \<open>
  A Node \<^verbatim>\<open>Buffer\<close> is a list of bytes. Offsets are JavaScript numbers; every offset
  the demuxer computes is an integer or \<^verbatim>\<open>NaN\<close>, so a number is modelled as
  \<open>Number n\<close> with \<open>n\<close> an unbounded integer, or \<open>NaN\<close>. (The loss of precision of
  doubles beyond \<open>2^53\<close> is not modelled.) The 32-bit operators \<^verbatim>\<open><<\<close> and
  \<^verbatim>\<open>&\<close> convert their operands with ToInt32 and return a signed 32-bit integer.
\<close>

type_synonym byte = "8 word"
type_synonym buffer = "byte list"

datatype jsnum = Number int | NaN

text \<open>The symbol \<^verbatim>\<open>TOO_SHORT\<close>, or a proper value.\<close>

datatype 'a or_short = TOO_SHORT | Ok 'a

text \<open>
  The number behind a property that is tested for truthiness: \<open>None\<close> when the property
  is absent, 0 or \<^verbatim>\<open>NaN\<close>.
\<close>

fun truthyNumber :: "jsnum option \<Rightarrow> int option" where
  "truthyNumber (Some (Number n)) = (if n \<noteq> 0 then Some n else None)"
| "truthyNumber _ = None"

fun js_add :: "jsnum \<Rightarrow> jsnum \<Rightarrow> jsnum" where
  "js_add (Number a) (Number b) = Number (a + b)"
| "js_add _ _ = NaN"

text \<open>\<^verbatim>\<open>a > b\<close> on numbers: false as soon as one side is \<^verbatim>\<open>NaN\<close>.\<close>

fun js_gt :: "jsnum \<Rightarrow> jsnum \<Rightarrow> bool" where
  "js_gt (Number a) (Number b) = (a > b)"
| "js_gt _ _ = False"

fun toInt32 :: "jsnum \<Rightarrow> int" where
  "toInt32 (Number n) = sint (word_of_int n :: 32 word)"
| "toInt32 NaN = 0"

text \<open>\<^verbatim>\<open>x << n\<close> and \<^verbatim>\<open>x & y\<close> on operands that are already integers.\<close>

definition js_shl :: "int \<Rightarrow> int \<Rightarrow> int" where
  "js_shl x n = sint (push_bit (nat (n mod 32)) (word_of_int x :: 32 word))"

definition js_and :: "int \<Rightarrow> int \<Rightarrow> int" where
  "js_and x y = sint ((word_of_int x :: 32 word) AND word_of_int y)"

text \<open>\<^verbatim>\<open>buffer[index]\<close>: \<^verbatim>\<open>undefined\<close> (here \<open>None\<close>) outside the buffer.\<close>

definition buf_at :: "buffer \<Rightarrow> int \<Rightarrow> byte option" where
  "buf_at buffer index =
     (if 0 \<le> index \<and> index < int (length buffer) then Some (buffer ! nat index) else None)"

text \<open>ToInt32 and ToNumber of a buffer element.\<close>

fun elemInt32 :: "byte option \<Rightarrow> int" where
  "elemInt32 None = 0"
| "elemInt32 (Some b) = uint b"

fun elemNumber :: "byte option \<Rightarrow> jsnum" where
  "elemNumber None = NaN"
| "elemNumber (Some b) = Number (uint b)"

text \<open>
  \<^verbatim>\<open>Buffer.prototype.slice(start, end)\<close> of Node: both bounds go through
  \<^verbatim>\<open>adjustOffset\<close> (a negative bound counts from the end, \<^verbatim>\<open>NaN\<close> is 0, everything is
  clamped to the buffer), and an \<^verbatim>\<open>end\<close> that is not after \<^verbatim>\<open>start\<close> gives the empty
  buffer.
\<close>

fun adjustOffset :: "jsnum \<Rightarrow> nat \<Rightarrow> nat" where
  "adjustOffset NaN len = 0"
| "adjustOffset (Number offset) len =
     (if offset = 0 then 0
      else if offset < 0 then (if offset + int len > 0 then nat (offset + int len) else 0)
      else if offset < int len then nat offset
      else len)"

definition slice :: "buffer \<Rightarrow> jsnum \<Rightarrow> jsnum \<Rightarrow> buffer" where
  "slice buf start end =
     (let srcLength = length buf;
          s = adjustOffset start srcLength;
          e = adjustOffset end srcLength;
          newLength = (if e > s then e - s else 0)
      in take newLength (drop s buf))"

text \<open>\<^verbatim>\<open>buf.slice(start)\<close>: the end defaults to the length of the buffer.\<close>

definition slice_from :: "buffer \<Rightarrow> jsnum \<Rightarrow> buffer" where
  "slice_from buf start = drop (adjustOffset start (length buf)) buf"

text \<open>\<^verbatim>\<open>buf.toString('hex')\<close>: two lower-case hexadecimal digits per byte.\<close>

definition hex_digit :: "nat \<Rightarrow> char" where
  "hex_digit n = ''0123456789abcdef'' ! n"

definition toString_hex :: "buffer \<Rightarrow> string" where
  "toString_hex buf = concat (map (\<lambda>b. [hex_digit (unat b div 16), hex_digit (unat b mod 16)]) buf)"

subsection \<open>Constants of the module\<close>

text \<open>\<^verbatim>\<open>OPUS_HEAD\<close>: the character codes of \<^verbatim>\<open>'OpusHead'\<close>.\<close>

definition OPUS_HEAD :: buffer where
  "OPUS_HEAD = map (\<lambda>x. of_nat (of_char x)) ''OpusHead''"

text \<open>\<^verbatim>\<open>TAGS\<close>: the value is true if the element has children.\<close>

definition TAGS :: "string \<rightharpoonup> bool" where
  "TAGS = [''1a45dfa3'' \<mapsto> True,
           ''18538067'' \<mapsto> True,
           ''1f43b675'' \<mapsto> True,
           ''1654ae6b'' \<mapsto> True,
           ''ae'' \<mapsto> True,
           ''d7'' \<mapsto> False,
           ''83'' \<mapsto> False,
           ''a3'' \<mapsto> False,
           ''63a2'' \<mapsto> False]"

subsection \<open>The variable-length integer reader\<close>

text \<open>
  The scan of \<^verbatim>\<open>vintLength\<close>:
  \<^verbatim>\<open>for (; i < 8; i++) if ((1 << (7 - i)) & buffer[index]) break;\<close>
  started at \<open>i\<close>, on the ToInt32 of \<^verbatim>\<open>buffer[index]\<close>.
\<close>

function vintScan :: "int \<Rightarrow> nat \<Rightarrow> nat" where
  "vintScan b i =
     (if i < 8 then (if js_and (js_shl 1 (7 - int i)) b \<noteq> 0 then i else vintScan b (i + 1))
      else i)"
  by pat_completeness auto
termination
  by (relation "measure (\<lambda>(b, i). 8 - i)") auto

definition vintLength :: "buffer \<Rightarrow> int \<Rightarrow> nat or_short" where
  "vintLength buffer index =
     (let i = vintScan (elemInt32 (buf_at buffer index)) 0;
          i = i + 1
      in if index + int i > int (length buffer) then TOO_SHORT else Ok i)"

definition expandVint :: "buffer \<Rightarrow> int \<Rightarrow> int \<Rightarrow> jsnum or_short" where
  "expandVint buffer start end =
     (case vintLength buffer start of
        TOO_SHORT \<Rightarrow> TOO_SHORT
      | Ok len \<Rightarrow>
          if end > int (length buffer) then TOO_SHORT
          else
            let mask = js_shl 1 (8 - int len) - 1;
                value = Number (js_and (elemInt32 (buf_at buffer start)) mask)
            in Ok (fold (\<lambda>i value. js_add (Number (js_shl (toInt32 value) 8))
                                          (elemNumber (buf_at buffer i)))
                        [start + 1 .. end - 1] value))"

subsection \<open>The state of a demuxer\<close>

record track =
  number :: "byte option"
  type :: "byte option"

datatype error =
  EBML_not_found    \<comment> \<open>\<^verbatim>\<open>Did not find the EBML tag at the start of the stream\<close>\<close>
| Not_opus          \<comment> \<open>\<^verbatim>\<open>Audio codec is not Opus!\<close>\<close>
| No_audio_track    \<comment> \<open>\<^verbatim>\<open>No audio track in this webm!\<close>\<close>
| TypeError         \<comment> \<open>arithmetic on the symbol \<^verbatim>\<open>TOO_SHORT\<close>\<close>

text \<open>
  The fields of \<^verbatim>\<open>this\<close>, and \<open>pushed\<close>: the units handed to \<^verbatim>\<open>this.push\<close> so far,
  in order.
\<close>

record demuxer =
  this_remainder :: "buffer option"
  this_length :: int
  this_count :: int
  this_skipUntil :: "int option"
  this_track :: "track option"
  this_incompleteTrack :: track
  this_ebmlFound :: bool
  pushed :: "buffer list"

definition constructor :: demuxer where
  "constructor =
     \<lparr> this_remainder = None, this_length = 0, this_count = 0, this_skipUntil = None,
       this_track = None, this_incompleteTrack = \<lparr> number = None, type = None \<rparr>,
       this_ebmlFound = False, pushed = [] \<rparr>"

subsection \<open>Reading one tag\<close>

record idData =
  idd_id :: buffer
  idd_offset :: int

definition readEBMLId :: "buffer \<Rightarrow> int \<Rightarrow> idData or_short" where
  "readEBMLId chunk offset =
     (case vintLength chunk offset of
        TOO_SHORT \<Rightarrow> TOO_SHORT
      | Ok idLength \<Rightarrow>
          Ok \<lparr> idd_id = slice chunk (Number offset) (Number (offset + int idLength)),
               idd_offset = offset + int idLength \<rparr>)"

record sizeData =
  sd_offset :: int
  sd_dataLength :: "jsnum or_short"
  sd_sizeLength :: nat

definition readTagDataSize :: "buffer \<Rightarrow> int \<Rightarrow> sizeData or_short" where
  "readTagDataSize chunk offset =
     (case vintLength chunk offset of
        TOO_SHORT \<Rightarrow> TOO_SHORT
      | Ok sizeLength \<Rightarrow>
          Ok \<lparr> sd_offset = offset + int sizeLength,
               sd_dataLength = expandVint chunk offset (offset + int sizeLength),
               sd_sizeLength = sizeLength \<rparr>)"

text \<open>The object \<^verbatim>\<open>{ offset, _skipUntil }\<close> that \<^verbatim>\<open>_readTag\<close> returns.\<close>

record tagResult =
  r_offset :: jsnum
  r_skipUntil :: "jsnum option"

text \<open>
  The track discovery of \<^verbatim>\<open>_readTag\<close> (the block under \<^verbatim>\<open>if (!this._track)\<close>).
  \<^verbatim>\<open>this._track = this._incompleteTrack\<close> shares one object, which nothing writes to
  afterwards, so the model copies the value.
\<close>

definition discoverTrack :: "demuxer \<Rightarrow> string \<Rightarrow> buffer \<Rightarrow> demuxer" where
  "discoverTrack this ebmlID data =
     (if this_track this = None then
        let this = (if ebmlID = ''ae''
                    then this\<lparr>this_incompleteTrack := \<lparr> number = None, type = None \<rparr>\<rparr>
                    else this);
            this = (if ebmlID = ''d7''
                    then this\<lparr>this_incompleteTrack :=
                               (this_incompleteTrack this)\<lparr>number := buf_at data 0\<rparr>\<rparr>
                    else this);
            this = (if ebmlID = ''83''
                    then this\<lparr>this_incompleteTrack :=
                               (this_incompleteTrack this)\<lparr>type := buf_at data 0\<rparr>\<rparr>
                    else this)
        in if type (this_incompleteTrack this) = Some 2
              \<and> number (this_incompleteTrack this) \<noteq> None
           then this\<lparr>this_track := Some (this_incompleteTrack this)\<rparr>
           else this
      else this)"

text \<open>
  \<^verbatim>\<open>_readTag\<close>, in three parts. A \<^verbatim>\<open>throw\<close> is \<open>Inl\<close>, with the state at that
  moment.

  \<open>processData\<close> is the end of the function, from \<^verbatim>\<open>if (!this._track)\<close> on: what is done
  with the \<^verbatim>\<open>data\<close> of a tag without children; \<open>offset'\<close> is
  \<^verbatim>\<open>offset + dataLength\<close>.
\<close>

definition processData ::
  "demuxer \<Rightarrow> string \<Rightarrow> buffer \<Rightarrow> jsnum
     \<Rightarrow> (error \<times> demuxer) + (demuxer \<times> tagResult or_short)" where
  "processData this ebmlID data offset' =
     (let this = discoverTrack this ebmlID data;
          result = \<lparr> r_offset = offset', r_skipUntil = None \<rparr>
      in if ebmlID = ''63a2'' then
           (if slice data (Number 0) (Number 8) \<noteq> OPUS_HEAD
            then Inl (Not_opus, this)
            else Inr (this, Ok result))
         else if ebmlID = ''a3'' then
           (case this_track this of
              None \<Rightarrow> Inl (No_audio_track, this)
            | Some track \<Rightarrow>
                if Some (js_and (elemInt32 (buf_at data 0)) 15) = map_option uint (number track)
                then Inr ((this\<lparr>pushed := (pushed this) @ [slice_from data (Number 4)]\<rparr>),
                          Ok result)
                else Inr (this, Ok result))
         else Inr (this, Ok result))"

text \<open>
  \<open>readTagData\<close> is the middle of the function (from the comment
  \<^verbatim>\<open>If this tag isn't useful\<close> to the slice of \<^verbatim>\<open>data\<close>), entered with the
  hexadecimal ID, the offset behind the size field and \<^verbatim>\<open>dataLength\<close>. Should
  \<^verbatim>\<open>dataLength\<close> be the symbol \<^verbatim>\<open>TOO_SHORT\<close>, the additions
  \<^verbatim>\<open>offset + dataLength\<close> raise a TypeError.
\<close>

definition readTagData ::
  "demuxer \<Rightarrow> buffer \<Rightarrow> string \<Rightarrow> int \<Rightarrow> jsnum or_short
     \<Rightarrow> (error \<times> demuxer) + (demuxer \<times> tagResult or_short)" where
  "readTagData this chunk ebmlID offset dataLength' =
     (case TAGS ebmlID of
        None \<Rightarrow>
          (case dataLength' of
             TOO_SHORT \<Rightarrow> Inl (TypeError, this)
           | Ok dataLength \<Rightarrow>
               if js_gt (Number (int (length chunk))) (js_add (Number offset) dataLength)
               then Inr (this, Ok \<lparr> r_offset = js_add (Number offset) dataLength,
                                    r_skipUntil = None \<rparr>)
               else Inr (this, Ok \<lparr> r_offset = Number offset,
                                    r_skipUntil = Some (js_add (Number (this_count this + offset))
                                                               dataLength) \<rparr>))
      | Some tagHasChildren \<Rightarrow>
          if tagHasChildren
          then Inr (this, Ok \<lparr> r_offset = Number offset, r_skipUntil = None \<rparr>)
          else
            (case dataLength' of
               TOO_SHORT \<Rightarrow> Inl (TypeError, this)
             | Ok dataLength \<Rightarrow>
                 if js_gt (js_add (Number offset) dataLength) (Number (int (length chunk)))
                 then Inr (this, TOO_SHORT)
                 else processData this ebmlID
                        (slice chunk (Number offset) (js_add (Number offset) dataLength))
                        (js_add (Number offset) dataLength)))"

text \<open>The beginning of \<^verbatim>\<open>_readTag\<close>: the ID, the header gate and the size.\<close>

definition readTag ::
  "demuxer \<Rightarrow> buffer \<Rightarrow> int \<Rightarrow> (error \<times> demuxer) + (demuxer \<times> tagResult or_short)" where
  "readTag this chunk offset =
     (case readEBMLId chunk offset of
        TOO_SHORT \<Rightarrow> Inr (this, TOO_SHORT)
      | Ok idData \<Rightarrow>
          let ebmlID = toString_hex (idd_id idData) in
          if \<not> this_ebmlFound this \<and> ebmlID \<noteq> ''1a45dfa3'' then Inl (EBML_not_found, this)
          else
            let this = this\<lparr>this_ebmlFound := True\<rparr>;
                offset = idd_offset idData
            in case readTagDataSize chunk offset of
                 TOO_SHORT \<Rightarrow> Inr (this, TOO_SHORT)
               | Ok sizeData \<Rightarrow>
                   readTagData this chunk ebmlID (sd_offset sizeData) (sd_dataLength sizeData))"

subsection \<open>Processing a chunk\<close>

text \<open>
  The loop of \<^verbatim>\<open>_transform\<close>, from the state, the working buffer and the local
  \<^verbatim>\<open>offset\<close> to the state and the offset at which the loop is left; \<open>None\<close> when the loop
  never ends.
\<close>

partial_function (option) transformLoop ::
  "demuxer \<Rightarrow> buffer \<Rightarrow> int \<Rightarrow> ((error \<times> demuxer) + (demuxer \<times> int)) option" where
  "transformLoop this chunk offset =
     (case readTag this chunk offset of
        Inl thrown \<Rightarrow> Some (Inl thrown)
      | Inr (this, TOO_SHORT) \<Rightarrow> Some (Inr (this, offset))
      | Inr (this, Ok result) \<Rightarrow>
          (case truthyNumber (r_skipUntil result) of
             Some skipUntil \<Rightarrow> Some (Inr (this\<lparr>this_skipUntil := Some skipUntil\<rparr>, offset))
           | None \<Rightarrow>
               (case truthyNumber (Some (r_offset result)) of
                  Some offset' \<Rightarrow> transformLoop this chunk offset'
                | None \<Rightarrow> Some (Inr (this, offset)))))"

declare transformLoop.simps [code]

text \<open>The end of \<^verbatim>\<open>_transform\<close>, after the loop.\<close>

definition finishTransform ::
  "buffer \<Rightarrow> ((error \<times> demuxer) + (demuxer \<times> int)) option \<Rightarrow> ((error \<times> demuxer) + demuxer) option" where
  "finishTransform chunk looped =
     (case looped of
        None \<Rightarrow> None
      | Some (Inl thrown) \<Rightarrow> Some (Inl thrown)
      | Some (Inr (this, offset)) \<Rightarrow>
          Some (Inr (this\<lparr>this_count := this_count this + offset,
                          this_remainder := Some (slice_from chunk (Number offset))\<rparr>)))"

definition transform :: "demuxer \<Rightarrow> buffer \<Rightarrow> ((error \<times> demuxer) + demuxer) option" where
  "transform this chunk =
     (let this = this\<lparr>this_length := this_length this + int (length chunk)\<rparr>;
          (chunk, this) = (case this_remainder this of
                             Some remainder \<Rightarrow> (remainder @ chunk, this\<lparr>this_remainder := None\<rparr>)
                           | None \<Rightarrow> (chunk, this))
      in case this_skipUntil this of
           None \<Rightarrow> finishTransform chunk (transformLoop this chunk 0)
         | Some skipUntil \<Rightarrow>
             if skipUntil \<noteq> 0 \<and> this_length this > skipUntil then
               finishTransform chunk
                 (transformLoop (this\<lparr>this_skipUntil := None\<rparr>) chunk (skipUntil - this_count this))
             else if skipUntil \<noteq> 0 then
               Some (Inr (this\<lparr>this_count := this_count this + int (length chunk)\<rparr>))
             else finishTransform chunk (transformLoop this chunk 0))"

text \<open>
  The stream machinery calls \<^verbatim>\<open>_transform\<close> once per written chunk, in order; an
  exception ends the stream.
\<close>

fun writeAll :: "demuxer \<Rightarrow> buffer list \<Rightarrow> ((error \<times> demuxer) + demuxer) option" where
  "writeAll this [] = Some (Inr this)"
| "writeAll this (chunk # chunks) =
     (case transform this chunk of
        None \<Rightarrow> None
      | Some (Inl thrown) \<Rightarrow> Some (Inl thrown)
      | Some (Inr this') \<Rightarrow> writeAll this' chunks)"

text \<open>What a run has emitted, whether it ended by an exception or not.\<close>

fun emitted :: "((error \<times> demuxer) + demuxer) \<Rightarrow> buffer list" where
  "emitted (Inl (e, this)) = pushed this"
| "emitted (Inr this) = pushed this"

fun thrown :: "((error \<times> demuxer) + demuxer) \<Rightarrow> error option" where
  "thrown (Inl (e, this)) = Some e"
| "thrown (Inr this) = None"

subsection \<open>Streams whose sizes decode to numbers that are not negative\<close>

text \<open>
  A notion of the proofs below. A stream is \<open>walkable\<close> when every tag that the walker
  meets in it, other than a tag with children (whose size the walker does not use), has a
  size field that \<^verbatim>\<open>expandVint\<close> decodes to a number that is not negative. The walker
  steps into a tag with children and over any other tag. A last tag may be cut short.

  This is narrower than the well-formed streams of the format: a size of \<open>2^31\<close> or
  more is decoded by the 32-bit fold of \<^verbatim>\<open>expandVint\<close> to another number, which may be
  negative; and the walk follows the sizes as the code decodes them.
\<close>

function walkable :: "buffer \<Rightarrow> bool" where
  "walkable stream =
     (case readEBMLId stream 0 of
        TOO_SHORT \<Rightarrow> True
      | Ok idData \<Rightarrow>
          (case readTagDataSize stream (idd_offset idData) of
             TOO_SHORT \<Rightarrow> True
           | Ok sizeData \<Rightarrow>
               if TAGS (toString_hex (idd_id idData)) = Some True
               then walkable (drop (nat (sd_offset sizeData)) stream)
               else (case sd_dataLength sizeData of
                       Ok (Number n) \<Rightarrow>
                         if 0 \<le> n
                         then walkable (drop (nat (sd_offset sizeData + n)) stream)
                         else False
                     | _ \<Rightarrow> False)))"
  by pat_completeness auto

section \<open>Notions used in the proofs\<close>

text \<open>The fold of expandVint sees the buffer through the elements it reads.\<close>

definition vintFold :: "byte option list \<Rightarrow> jsnum \<Rightarrow> jsnum" where
  "vintFold xs v = fold (\<lambda>x value. js_add (Number (js_shl (toInt32 value) 8)) (elemNumber x)) xs v"

fun map_short :: "('a \<Rightarrow> 'b) \<Rightarrow> 'a or_short \<Rightarrow> 'b or_short" where
  "map_short f TOO_SHORT = TOO_SHORT"
| "map_short f (Ok x) = Ok (f x)"

text \<open>The states that differ only in the bookkeeping of \<open>transform\<close>.\<close>

definition sameCore :: "demuxer \<Rightarrow> demuxer \<Rightarrow> bool" where
  "sameCore s t \<longleftrightarrow>
     this_track s = this_track t \<and> this_incompleteTrack s = this_incompleteTrack t
     \<and> this_ebmlFound s = this_ebmlFound t \<and> pushed s = pushed t"

text \<open>What one turn does to a state: the core may change, the bookkeeping does not.\<close>

definition keeps :: "demuxer \<Rightarrow> demuxer \<Rightarrow> bool" where
  "keeps s s' \<longleftrightarrow>
     this_count s' = this_count s \<and> this_length s' = this_length s
     \<and> this_remainder s' = this_remainder s \<and> this_skipUntil s' = this_skipUntil s"

fun relTag ::
  "int \<Rightarrow> (error \<times> demuxer) + (demuxer \<times> tagResult or_short)
     \<Rightarrow> (error \<times> demuxer) + (demuxer \<times> tagResult or_short) \<Rightarrow> bool" where
  "relTag k (Inl (e, s)) (Inl (e', t)) = (e = e' \<and> sameCore s t)"
| "relTag k (Inr (s, TOO_SHORT)) (Inr (t, TOO_SHORT)) = sameCore s t"
| "relTag k (Inr (s, Ok r)) (Inr (t, Ok r')) =
     (sameCore s t \<and> r_skipUntil r = r_skipUntil r'
      \<and> r_offset r = js_add (r_offset r') (Number k))"
| "relTag k _ _ = False"

definition extends ::
  "demuxer \<Rightarrow> buffer \<Rightarrow> buffer \<Rightarrow> int \<Rightarrow> (error \<times> demuxer) + (demuxer \<times> tagResult or_short) \<Rightarrow> bool" where
  "extends s B E offset res =
     (case res of
        Inl x \<Rightarrow> readTag s (B @ E) offset = Inl x
      | Inr (s', TOO_SHORT) \<Rightarrow> readTag s' (B @ E) offset = readTag s (B @ E) offset
      | Inr (s', Ok r) \<Rightarrow>
          (case r_skipUntil r of
             None \<Rightarrow>
               (\<exists>o2. r_offset r = Number o2 \<and> offset < o2 \<and> o2 \<le> int (length B)
                  \<and> walkable (drop (nat o2) (B @ E))
                  \<and> readTag s (B @ E) offset = Inr (s', Ok r))
           | Some v \<Rightarrow>
               (\<exists>p d. r_offset r = Number p \<and> offset < p \<and> p \<le> int (length B) \<and> 0 \<le> d
                  \<and> v = Number (this_count s + p + d) \<and> int (length B) \<le> p + d
                  \<and> walkable (drop (nat (p + d)) (B @ E))
                  \<and> readTag s (B @ E) offset
                      = Inr (s', Ok (if int (length (B @ E)) > p + d
                                     then \<lparr> r_offset = Number (p + d), r_skipUntil = None \<rparr>
                                     else r)))))"

definition loopExt ::
  "demuxer \<Rightarrow> buffer \<Rightarrow> buffer \<Rightarrow> int \<Rightarrow> (error \<times> demuxer) + (demuxer \<times> int) \<Rightarrow> bool" where
  "loopExt s B E offset res =
     (case res of
        Inl x \<Rightarrow> transformLoop s (B @ E) offset = Some (Inl x)
      | Inr (s', o1) \<Rightarrow>
          offset \<le> o1 \<and> o1 \<le> int (length B) \<and> this_count s' = this_count s
          \<and> this_length s' = this_length s \<and>
          (case this_skipUntil s' of
             None \<Rightarrow>
               walkable (drop (nat o1) (B @ E))
               \<and> transformLoop s (B @ E) offset = transformLoop s' (B @ E) o1
           | Some T \<Rightarrow>
               T \<noteq> 0 \<and> this_count s + int (length B) \<le> T \<and> o1 < T - this_count s
               \<and> walkable (drop (nat (T - this_count s)) (B @ E))
               \<and> transformLoop s (B @ E) offset
                   = (if this_count s + int (length (B @ E)) > T
                      then transformLoop (s'\<lparr>this_skipUntil := None\<rparr>) (B @ E) (T - this_count s)
                      else Some (Inr (s', o1)))))"

fun obsLoop :: "(error \<times> demuxer) + (demuxer \<times> int) \<Rightarrow> error option \<times> buffer list" where
  "obsLoop (Inl (e, s)) = (Some e, pushed s)"
| "obsLoop (Inr (s, offset)) = (None, pushed s)"

definition rem :: "demuxer \<Rightarrow> buffer" where
  "rem s = (case this_remainder s of None \<Rightarrow> [] | Some r \<Rightarrow> r)"

definition ready :: "demuxer \<Rightarrow> buffer \<Rightarrow> bool" where
  "ready s X \<longleftrightarrow>
     0 \<le> this_count s \<and> this_length s = this_count s + int (length (rem s))
     \<and> (case this_skipUntil s of
          None \<Rightarrow> walkable (rem s @ X)
        | Some T \<Rightarrow> T \<noteq> 0 \<and> this_length s \<le> T
                    \<and> walkable (drop (nat (T - this_count s)) (rem s @ X)))"

fun obs :: "(error \<times> demuxer) + demuxer \<Rightarrow> error option \<times> buffer list" where
  "obs (Inl (e, s)) = (Some e, pushed s)"
| "obs (Inr s) = (None, pushed s)"

text \<open>
  The states in which \<^verbatim>\<open>_readTag\<close> can be entered in a run that starts from a new
  demuxer: the state of the constructor, what \<^verbatim>\<open>_readTag\<close> leaves behind (whether it
  returns or throws, on any buffer at any offset), and any change of the fields that only
  \<^verbatim>\<open>_transform\<close> writes (\<open>sameCore\<close>).
\<close>

inductive reachable :: "demuxer \<Rightarrow> bool" where
  start: "reachable constructor"
| read: "reachable this \<Longrightarrow> readTag this chunk offset = Inr (this', result) \<Longrightarrow> reachable this'"
| throw: "reachable this \<Longrightarrow> readTag this chunk offset = Inl (e, this') \<Longrightarrow> reachable this'"
| book: "reachable this \<Longrightarrow> sameCore this this' \<Longrightarrow> reachable this'"

text \<open>The state in which a run has ended.\<close>

fun finalState :: "(error \<times> demuxer) + demuxer \<Rightarrow> demuxer" where
  "finalState (Inl (e, this)) = this"
| "finalState (Inr this) = this"

text \<open>
  Two invariants of the reachable states: units are pushed only for a track whose number
  fits four bits, and while no track is discovered the fields recorded so far do not make
  up an audio track.
\<close>

definition emitInv :: "demuxer \<Rightarrow> bool" where
  "emitInv s \<longleftrightarrow>
     (pushed s \<noteq> [] \<longrightarrow> (\<exists>t n. this_track s = Some t \<and> number t = Some n \<and> unat n < 16))"

definition undiscovered :: "demuxer \<Rightarrow> bool" where
  "undiscovered s \<longleftrightarrow>
     (this_track s = None \<longrightarrow>
        \<not> (type (this_incompleteTrack s) = Some 2 \<and> number (this_incompleteTrack s) \<noteq> None))"

text \<open>
  Before the header gate: a state that has seen no complete tag ID yet. And what holds of
  a run once the gate is cleared.
\<close>

definition awaiting :: "demuxer \<Rightarrow> bool" where
  "awaiting s \<longleftrightarrow>
     \<not> this_ebmlFound s \<and> this_skipUntil s = None \<and> pushed s = []
     \<and> readEBMLId (rem s) 0 = TOO_SHORT"

fun gateOk :: "(error \<times> demuxer) + (demuxer \<times> int) \<Rightarrow> bool" where
  "gateOk (Inl (e, s)) = (e \<noteq> EBML_not_found \<and> this_ebmlFound s)"
| "gateOk (Inr (s, offset)) = this_ebmlFound s"

fun gateOk' :: "(error \<times> demuxer) + demuxer \<Rightarrow> bool" where
  "gateOk' r = (thrown r \<noteq> Some EBML_not_found \<and> this_ebmlFound (finalState r))"

section \<open>Facts about the model\<close>

declare vintScan.simps [simp del]

lemma vintScan_bounds: "i \<le> 8 \<Longrightarrow> i \<le> vintScan b i \<and> vintScan b i \<le> 8"
proof (induction b i rule: vintScan.induct)
  case (1 b i)
  then show ?case
    by (subst (1 2) vintScan.simps) (auto simp: le_Suc_eq)
qed

lemma vintLength_Ok:
  assumes "vintLength B i = Ok n"
  shows "1 \<le> n" "n \<le> 9" "i + int n \<le> int (length B)"
  using assms vintScan_bounds [of 0 "elemInt32 (buf_at B i)"]
  by (auto simp: vintLength_def Let_def split: if_splits)

lemma readEBMLId_Ok:
  assumes "readEBMLId B i = Ok idd"
  shows "i < idd_offset idd" "idd_offset idd \<le> int (length B)"
  using assms vintLength_Ok [of B i]
  by (auto simp: readEBMLId_def split: or_short.splits)

lemma readTagDataSize_Ok:
  assumes "readTagDataSize B i = Ok sd"
  shows "i < sd_offset sd" "sd_offset sd \<le> int (length B)"
  using assms vintLength_Ok [of B i]
  by (auto simp: readTagDataSize_def split: or_short.splits)

termination walkable
proof (relation "measure length", goal_cases)
  case 1
  show ?case by simp
next
  case (2 stream idData sizeData)
  from readEBMLId_Ok [OF 2(1)] readTagDataSize_Ok [OF 2(2)]
  show ?case by auto
next
  case (3 stream idData sizeData x2 n)
  from readEBMLId_Ok [OF 3(1)] readTagDataSize_Ok [OF 3(2)] 3(6)
  show ?case by auto
qed

declare walkable.simps [simp del]

lemma buf_at_append: "i < int (length B) \<Longrightarrow> buf_at (B @ E) i = buf_at B i"
  by (auto simp: buf_at_def nth_append)

lemma buf_at_drop: "0 \<le> i \<Longrightarrow> buf_at (drop k B) i = buf_at B (i + int k)"
  by (auto simp: buf_at_def nat_add_distrib add.commute)

lemma vintLength_append:
  assumes "vintLength B i = Ok n"
  shows "vintLength (B @ E) i = Ok n"
proof -
  from vintLength_Ok [OF assms] have "i < int (length B)" by linarith
  then have "buf_at (B @ E) i = buf_at B i" by (rule buf_at_append)
  with assms show ?thesis
    by (auto simp: vintLength_def Let_def split: if_splits)
qed

lemma vintLength_drop:
  assumes "0 \<le> i" "k \<le> length B"
  shows "vintLength (drop k B) i = vintLength B (i + int k)"
  using assms by (auto simp: vintLength_def Let_def buf_at_drop)

lemma upto_shift: "map (\<lambda>i. i + k) [a..b] = [a + k..b + k]"
proof (induction a b rule: upto.induct)
  case (1 i j)
  show ?case
  proof (cases "i \<le> j")
    case True
    then have "[i..j] = i # [i + 1..j]" "[i + k..j + k] = (i + k) # [i + k + 1..j + k]"
      by (simp_all add: upto_rec1)
    with 1 True show ?thesis by (simp add: add.commute add.left_commute)
  next
    case False
    then show ?thesis by simp
  qed
qed

lemma expandVint_alt:
  "expandVint B s e =
     (case vintLength B s of
        TOO_SHORT \<Rightarrow> TOO_SHORT
      | Ok len \<Rightarrow>
          if e > int (length B) then TOO_SHORT
          else Ok (vintFold (map (buf_at B) [s + 1..e - 1])
                     (Number (js_and (elemInt32 (buf_at B s)) (js_shl 1 (8 - int len) - 1)))))"
  by (simp add: expandVint_def vintFold_def fold_map o_def Let_def split: or_short.splits)

lemma expandVint_append:
  assumes "vintLength B s = Ok n" "0 \<le> s"
  shows "expandVint (B @ E) s (s + int n) = expandVint B s (s + int n)"
proof -
  from vintLength_Ok [OF assms(1)] have le: "s + int n \<le> int (length B)" by simp
  have m: "map (buf_at (B @ E)) [s + 1..s + int n - 1] = map (buf_at B) [s + 1..s + int n - 1]"
    using le by (intro map_cong) (auto simp: buf_at_append)
  have b: "buf_at (B @ E) s = buf_at B s"
    using le vintLength_Ok(1) [OF assms(1)] by (intro buf_at_append) linarith
  show ?thesis
    using le by (simp add: expandVint_alt vintLength_append [OF assms(1)] assms(1) m b)
qed

lemma expandVint_drop:
  assumes "0 \<le> s" "k \<le> length B"
  shows "expandVint (drop k B) s (s + int n) = expandVint B (s + int k) (s + int k + int n)"
proof -
  have "map (buf_at (drop k B)) [s + 1..s + int n - 1]
        = map (buf_at B) (map (\<lambda>i. i + int k) [s + 1..s + int n - 1])"
    using assms by (simp add: o_def buf_at_drop cong: map_cong)
  also have "map (\<lambda>i. i + int k) [s + 1..s + int n - 1] = [s + int k + 1..s + int k + int n - 1]"
    by (simp add: upto_shift algebra_simps)
  finally show ?thesis
    using assms by (auto simp: expandVint_alt vintLength_drop buf_at_drop split: or_short.splits)
qed

lemma expandVint_Number:
  assumes "vintLength B s = Ok n" "0 \<le> s"
  shows "\<exists>d. expandVint B s (s + int n) = Ok (Number d)"
proof -
  have *: "\<exists>d. vintFold (map Some bs) (Number v) = Number d" for bs v
    by (induction bs arbitrary: v) (auto simp: vintFold_def)
  from vintLength_Ok [OF assms(1)] have le: "s + int n \<le> int (length B)" by simp
  have m: "map (buf_at B) [s + 1..s + int n - 1] = map Some (map (\<lambda>i. B ! nat i) [s + 1..s + int n - 1])"
    using le assms(2) by (auto simp: buf_at_def)
  show ?thesis
    using le assms(1) * by (simp add: expandVint_alt m del: map_map)
qed

lemma adjustOffset_nonneg: "0 \<le> a \<Longrightarrow> adjustOffset (Number a) len = min (nat a) len"
  by auto

lemma slice_nonneg:
  "0 \<le> a \<Longrightarrow> a \<le> b \<Longrightarrow> slice B (Number a) (Number b) = take (nat (b - a)) (drop (nat a) B)"
  by (auto simp: slice_def Let_def adjustOffset_nonneg min_def nat_diff_distrib simp del: adjustOffset.simps)

lemma slice_from_nonneg: "0 \<le> a \<Longrightarrow> slice_from B (Number a) = drop (nat a) B"
  by (auto simp: slice_from_def adjustOffset_nonneg min_def simp del: adjustOffset.simps)

lemma slice_append:
  "0 \<le> a \<Longrightarrow> a \<le> b \<Longrightarrow> b \<le> int (length B) \<Longrightarrow>
   slice (B @ E) (Number a) (Number b) = slice B (Number a) (Number b)"
  by (simp add: slice_nonneg)

lemma slice_drop:
  "0 \<le> a \<Longrightarrow> a \<le> b \<Longrightarrow>
   slice (drop k B) (Number a) (Number b) = slice B (Number (a + int k)) (Number (b + int k))"
  by (simp add: slice_nonneg nat_add_distrib add.commute)

lemma readEBMLId_append:
  assumes "readEBMLId B i = Ok idd" "0 \<le> i"
  shows "readEBMLId (B @ E) i = Ok idd"
proof -
  from assms obtain n where n: "vintLength B i = Ok n"
    by (auto simp: readEBMLId_def split: or_short.splits)
  from vintLength_Ok [OF n] assms n show ?thesis
    by (simp add: readEBMLId_def vintLength_append [OF n] slice_append)
qed

lemma readEBMLId_drop:
  assumes "0 \<le> i" "k \<le> length B"
  shows "readEBMLId (drop k B) i
         = map_short (\<lambda>idd. idd\<lparr>idd_offset := idd_offset idd - int k\<rparr>) (readEBMLId B (i + int k))"
  using assms
  by (auto simp: readEBMLId_def vintLength_drop slice_drop algebra_simps split: or_short.splits)

lemma readTagDataSize_append:
  assumes "readTagDataSize B i = Ok sd" "0 \<le> i"
  shows "readTagDataSize (B @ E) i = Ok sd"
proof -
  from assms obtain n where n: "vintLength B i = Ok n"
    by (auto simp: readTagDataSize_def split: or_short.splits)
  from assms n show ?thesis
    by (simp add: readTagDataSize_def vintLength_append [OF n] expandVint_append [OF n])
qed

lemma readTagDataSize_drop:
  assumes "0 \<le> i" "k \<le> length B"
  shows "readTagDataSize (drop k B) i
         = map_short (\<lambda>sd. sd\<lparr>sd_offset := sd_offset sd - int k\<rparr>) (readTagDataSize B (i + int k))"
  using assms
  by (auto simp: readTagDataSize_def vintLength_drop expandVint_drop algebra_simps split: or_short.splits)

lemma readTagDataSize_Number:
  assumes "readTagDataSize B i = Ok sd" "0 \<le> i"
  shows "\<exists>d. sd_dataLength sd = Ok (Number d)"
proof -
  from assms obtain n where n: "vintLength B i = Ok n"
    by (auto simp: readTagDataSize_def split: or_short.splits)
  from expandVint_Number [OF n assms(2)] assms n show ?thesis
    by (auto simp: readTagDataSize_def)
qed

lemma readTag_header_cases [consumes 1, case_names NoId NoEBML NoSize Complete]:
  assumes "0 \<le> offset"
  obtains
    (NoId) "readEBMLId B offset = TOO_SHORT" "readTag s B offset = Inr (s, TOO_SHORT)"
  | (NoEBML) idd where "readEBMLId B offset = Ok idd" "\<not> this_ebmlFound s"
      "toString_hex (idd_id idd) \<noteq> ''1a45dfa3''" "readTag s B offset = Inl (EBML_not_found, s)"
  | (NoSize) idd where "readEBMLId B offset = Ok idd"
      "this_ebmlFound s \<or> toString_hex (idd_id idd) = ''1a45dfa3''"
      "readTagDataSize B (idd_offset idd) = TOO_SHORT"
      "readTag s B offset = Inr (s\<lparr>this_ebmlFound := True\<rparr>, TOO_SHORT)"
  | (Complete) idd sd d where "readEBMLId B offset = Ok idd"
      "this_ebmlFound s \<or> toString_hex (idd_id idd) = ''1a45dfa3''"
      "readTagDataSize B (idd_offset idd) = Ok sd" "sd_dataLength sd = Ok (Number d)"
      "readTag s B offset
       = readTagData (s\<lparr>this_ebmlFound := True\<rparr>) B (toString_hex (idd_id idd))
           (sd_offset sd) (Ok (Number d))"
proof (cases "readEBMLId B offset")
  case TOO_SHORT
  then show ?thesis using NoId by (simp add: readTag_def)
next
  case (Ok idd)
  note idd = this
  show ?thesis
  proof (cases "this_ebmlFound s \<or> toString_hex (idd_id idd) = ''1a45dfa3''")
    case False
    with idd show ?thesis using NoEBML [of idd] by (simp add: readTag_def Let_def)
  next
    case True
    note gate = this
    show ?thesis
    proof (cases "readTagDataSize B (idd_offset idd)")
      case TOO_SHORT
      with idd gate show ?thesis using NoSize [of idd] by (auto simp add: readTag_def Let_def)
    next
      case (Ok sd)
      from readEBMLId_Ok [OF idd] assms have "0 \<le> idd_offset idd" by simp
      from readTagDataSize_Number [OF Ok this] obtain d where "sd_dataLength sd = Ok (Number d)" ..
      with idd gate Ok show ?thesis using Complete [of idd sd d]
        by (auto simp add: readTag_def Let_def)
    qed
  qed
qed

lemma walkable_step:
  assumes "0 \<le> offset" "walkable (drop (nat offset) S)"
    and "readEBMLId S offset = Ok idd" "readTagDataSize S (idd_offset idd) = Ok sd"
    and "sd_dataLength sd = Ok (Number d)"
  shows "TAGS (toString_hex (idd_id idd)) = Some True \<Longrightarrow> walkable (drop (nat (sd_offset sd)) S)"
    and "TAGS (toString_hex (idd_id idd)) \<noteq> Some True \<Longrightarrow> 0 \<le> d"
    and "TAGS (toString_hex (idd_id idd)) \<noteq> Some True \<Longrightarrow> walkable (drop (nat (sd_offset sd + d)) S)"
proof -
  from readEBMLId_Ok [OF assms(3)] have o: "offset < idd_offset idd" "idd_offset idd \<le> int (length S)" .
  from readTagDataSize_Ok [OF assms(4)] have p: "idd_offset idd < sd_offset sd" "sd_offset sd \<le> int (length S)" .
  have k: "nat offset \<le> length S" using o assms(1) by linarith
  have 1: "readEBMLId (drop (nat offset) S) 0 = Ok (idd\<lparr>idd_offset := idd_offset idd - offset\<rparr>)"
    using readEBMLId_drop [of 0 "nat offset" S] k assms(1,3) by simp
  have 2: "readTagDataSize (drop (nat offset) S) (idd_offset idd - offset)
           = Ok (sd\<lparr>sd_offset := sd_offset sd - offset\<rparr>)"
    using readTagDataSize_drop [of "idd_offset idd - offset" "nat offset" S] k assms(1,4) o by simp
  have 3: "nat (sd_offset sd - offset) + nat offset = nat (sd_offset sd)"
    using o p assms(1) by linarith
  note wf = assms(2) [unfolded walkable.simps [of "drop (nat offset) S"]]
  show "walkable (drop (nat (sd_offset sd)) S)" if "TAGS (toString_hex (idd_id idd)) = Some True"
    using wf that 1 2 3 by simp
  show "0 \<le> d" if "TAGS (toString_hex (idd_id idd)) \<noteq> Some True"
    using wf that 1 2 assms(5) by (simp split: if_splits)
  then have 4: "nat (sd_offset sd - offset + d) + nat offset = nat (sd_offset sd + d)" if "TAGS (toString_hex (idd_id idd)) \<noteq> Some True"
    using o p assms(1) that by linarith
  show "walkable (drop (nat (sd_offset sd + d)) S)" if "TAGS (toString_hex (idd_id idd)) \<noteq> Some True"
    using wf that 1 2 4 assms(5) by (simp split: if_splits)
qed


lemma discoverTrack_count:
  "discoverTrack (s\<lparr>this_count := c\<rparr>) ebmlID data = (discoverTrack s ebmlID data)\<lparr>this_count := c\<rparr>"
  by (simp add: discoverTrack_def Let_def)

lemma discoverTrack_fields [simp]:
  "this_count (discoverTrack s ebmlID data) = this_count s"
  "this_length (discoverTrack s ebmlID data) = this_length s"
  "this_remainder (discoverTrack s ebmlID data) = this_remainder s"
  "this_skipUntil (discoverTrack s ebmlID data) = this_skipUntil s"
  "this_ebmlFound (discoverTrack s ebmlID data) = this_ebmlFound s"
  "pushed (discoverTrack s ebmlID data) = pushed s"
  by (simp_all add: discoverTrack_def Let_def)

text \<open>What \<open>readTagData\<close> returns where the offset and the size are not negative.\<close>

lemma readTagData_container:
  "TAGS ebmlID = Some True \<Longrightarrow>
   readTagData s B ebmlID off dl = Inr (s, Ok \<lparr> r_offset = Number off, r_skipUntil = None \<rparr>)"
  by (simp add: readTagData_def)

lemma readTagData_unknown:
  "TAGS ebmlID = None \<Longrightarrow>
   readTagData s B ebmlID off (Ok (Number d))
   = (if int (length B) > off + d
      then Inr (s, Ok \<lparr> r_offset = Number (off + d), r_skipUntil = None \<rparr>)
      else Inr (s, Ok \<lparr> r_offset = Number off,
                         r_skipUntil = Some (Number (this_count s + off + d)) \<rparr>))"
  by (simp add: readTagData_def)

lemma readTagData_leaf_short:
  "TAGS ebmlID = Some False \<Longrightarrow> off + d > int (length B) \<Longrightarrow>
   readTagData s B ebmlID off (Ok (Number d)) = Inr (s, TOO_SHORT)"
  by (simp add: readTagData_def)

lemma readTagData_leaf:
  assumes "TAGS ebmlID = Some False" "off + d \<le> int (length B)"
  shows "readTagData s B ebmlID off (Ok (Number d))
         = processData s ebmlID (slice B (Number off) (Number (off + d))) (Number (off + d))"
  using assms by (simp add: readTagData_def)

lemma readTagData_append:
  assumes "TAGS ebmlID = Some False" "0 \<le> off" "0 \<le> d" "off + d \<le> int (length B)"
  shows "readTagData s (B @ E) ebmlID off (Ok (Number d)) = readTagData s B ebmlID off (Ok (Number d))"
  using assms by (simp add: readTagData_leaf slice_append)

lemma sameCore_refl [simp]: "sameCore s s"
  by (simp add: sameCore_def)

lemma sameCore_sym: "sameCore s t \<Longrightarrow> sameCore t s"
  by (simp add: sameCore_def)

lemma sameCore_trans: "sameCore s t \<Longrightarrow> sameCore t u \<Longrightarrow> sameCore s u"
  by (simp add: sameCore_def)

lemma sameCore_updates [simp]:
  "sameCore (s\<lparr>this_count := c\<rparr>) t = sameCore s t"
  "sameCore (s\<lparr>this_length := l\<rparr>) t = sameCore s t"
  "sameCore (s\<lparr>this_remainder := r\<rparr>) t = sameCore s t"
  "sameCore (s\<lparr>this_skipUntil := k\<rparr>) t = sameCore s t"
  "sameCore s (t\<lparr>this_count := c\<rparr>) = sameCore s t"
  "sameCore s (t\<lparr>this_length := l\<rparr>) = sameCore s t"
  "sameCore s (t\<lparr>this_remainder := r\<rparr>) = sameCore s t"
  "sameCore s (t\<lparr>this_skipUntil := k\<rparr>) = sameCore s t"
  by (simp_all add: sameCore_def)

lemma keeps_refl [simp]: "keeps s s"
  by (simp add: keeps_def)

lemma keeps_trans: "keeps s t \<Longrightarrow> keeps t u \<Longrightarrow> keeps s u"
  by (simp add: keeps_def)

lemma processData_keeps:
  "processData s ebmlID data off' = Inl (e, s') \<Longrightarrow> keeps s s'"
  "processData s ebmlID data off' = Inr (s', r) \<Longrightarrow> keeps s s'"
  by (auto simp: processData_def keeps_def Let_def split: option.splits if_splits)

lemma readTagData_keeps:
  "readTagData s B ebmlID off dl = Inl (e, s') \<Longrightarrow> keeps s s'"
  "readTagData s B ebmlID off dl = Inr (s', r) \<Longrightarrow> keeps s s'"
  by (auto simp: readTagData_def split: option.splits or_short.splits if_splits
           dest: processData_keeps)

lemma readTag_keeps:
  "readTag s B offset = Inl (e, s') \<Longrightarrow> keeps s s'"
  "readTag s B offset = Inr (s', r) \<Longrightarrow> keeps s s'"
  by (auto simp: readTag_def Let_def keeps_def split: or_short.splits if_splits
           dest!: readTagData_keeps)

lemma discoverTrack_sameCore:
  "sameCore s t \<Longrightarrow> sameCore (discoverTrack s ebmlID data) (discoverTrack t ebmlID data)"
  by (auto simp add: discoverTrack_def sameCore_def Let_def)

lemma sameCore_ebmlFound:
  "sameCore s t \<Longrightarrow> sameCore (s\<lparr>this_ebmlFound := b\<rparr>) (t\<lparr>this_ebmlFound := b\<rparr>)"
  by (simp add: sameCore_def)

lemma processData_sim:
  assumes "sameCore s t"
  shows "relTag k (processData s ebmlID data (Number (off' + k))) (processData t ebmlID data (Number off'))"
proof -
  define S where "S = discoverTrack s ebmlID data"
  define T where "T = discoverTrack t ebmlID data"
  have sc: "sameCore S T"
    unfolding S_def T_def by (rule discoverTrack_sameCore [OF assms])
  show ?thesis
    unfolding processData_def Let_def S_def [symmetric] T_def [symmetric]
    using sc by (auto simp: sameCore_def split: option.splits)
qed

lemma readTagData_sim:
  assumes "sameCore s t" "this_count t = this_count s + int k" "0 \<le> off" "k \<le> length B"
    and "TAGS ebmlID \<noteq> Some True \<Longrightarrow> 0 \<le> d"
  shows "relTag (int k) (readTagData s B ebmlID (off + int k) (Ok (Number d)))
                        (readTagData t (drop k B) ebmlID off (Ok (Number d)))"
proof (cases "TAGS ebmlID")
  case None
  then show ?thesis using assms by (auto simp add: readTagData_unknown)
next
  case (Some b)
  show ?thesis
  proof (cases b)
    case True
    with Some show ?thesis using assms by (simp add: readTagData_container)
  next
    case False
    with Some have leaf: "TAGS ebmlID = Some False" by simp
    with assms have d: "0 \<le> d" by simp
    show ?thesis
    proof (cases "off + int k + d > int (length B)")
      case True
      then show ?thesis using leaf assms by (simp add: readTagData_leaf_short)
    next
      case False
      have data: "slice (drop k B) (Number off) (Number (off + d))
                  = slice B (Number (off + int k)) (Number (off + int k + d))"
        using assms d by (simp add: slice_drop algebra_simps)
      have 1: "readTagData s B ebmlID (off + int k) (Ok (Number d))
               = processData s ebmlID (slice B (Number (off + int k)) (Number (off + int k + d)))
                   (Number ((off + d) + int k))"
        using False leaf by (simp add: readTagData_leaf algebra_simps)
      have 2: "readTagData t (drop k B) ebmlID off (Ok (Number d))
               = processData t ebmlID (slice B (Number (off + int k)) (Number (off + int k + d)))
                   (Number (off + d))"
        using False leaf assms(4) by (subst readTagData_leaf) (simp_all add: data)
      show ?thesis unfolding 1 2 by (rule processData_sim [OF assms(1)])
    qed
  qed
qed

lemma readTag_sim:
  assumes "sameCore s t" "this_count t = this_count s + int k" "0 \<le> offset" "k \<le> length B"
    and "walkable (drop (nat offset + k) B)"
  shows "relTag (int k) (readTag s B (offset + int k)) (readTag t (drop k B) offset)"
proof -
  have o: "0 \<le> offset + int k" using assms by simp
  have e: "this_ebmlFound t = this_ebmlFound s" using assms(1) by (simp add: sameCore_def)
  have wf: "walkable (drop (nat (offset + int k)) B)"
    using assms(3,5) by (simp add: nat_add_distrib)
  show ?thesis
    using o
  proof (cases rule: readTag_header_cases [where B = B and s = s])
    case NoId
    then show ?thesis
      using assms by (simp add: readTag_def readEBMLId_drop)
  next
    case (NoEBML idd)
    then show ?thesis
      using assms e by (simp add: readTag_def readEBMLId_drop)
  next
    case (NoSize idd)
    then show ?thesis
      using assms e readEBMLId_Ok [OF NoSize(1)]
      by (auto simp add: readTag_def readEBMLId_drop readTagDataSize_drop Let_def sameCore_ebmlFound)
  next
    case (Complete idd sd d)
    from readEBMLId_Ok [OF Complete(1)] readTagDataSize_Ok [OF Complete(3)]
    have b: "offset + int k < idd_offset idd" "idd_offset idd < sd_offset sd" by simp_all
    have "relTag (int k)
            (readTagData (s\<lparr>this_ebmlFound := True\<rparr>) B (toString_hex (idd_id idd))
               ((sd_offset sd - int k) + int k) (Ok (Number d)))
            (readTagData (t\<lparr>this_ebmlFound := True\<rparr>) (drop k B) (toString_hex (idd_id idd))
               (sd_offset sd - int k) (Ok (Number d)))"
      using assms b walkable_step(2) [OF o wf Complete(1,3,4)]
      by (intro readTagData_sim) (auto simp: sameCore_def)
    then show ?thesis
      using Complete assms e b
      by (auto simp add: readTag_def [of t] readEBMLId_drop readTagDataSize_drop Let_def)
  qed
qed

lemma readTag_gate_idem:
  assumes "readEBMLId B offset = Ok idd"
    and "this_ebmlFound s \<or> toString_hex (idd_id idd) = ''1a45dfa3''"
  shows "readTag (s\<lparr>this_ebmlFound := True\<rparr>) B offset = readTag s B offset"
  using assms by (auto simp: readTag_def Let_def)

lemma processData_result:
  "processData s ebmlID data off' = Inr (s', r) \<Longrightarrow> r = Ok \<lparr> r_offset = off', r_skipUntil = None \<rparr>"
  by (auto simp: processData_def Let_def split: if_splits option.splits)

lemma readTag_complete:
  assumes "readEBMLId B offset = Ok idd"
    and "this_ebmlFound s \<or> toString_hex (idd_id idd) = ''1a45dfa3''"
    and "readTagDataSize B (idd_offset idd) = Ok sd"
  shows "readTag s B offset
         = readTagData (s\<lparr>this_ebmlFound := True\<rparr>) B (toString_hex (idd_id idd))
             (sd_offset sd) (sd_dataLength sd)"
  using assms by (auto simp: readTag_def Let_def)

lemma readTag_extends:
  assumes "0 \<le> offset" "walkable (drop (nat offset) (B @ E))"
  shows "extends s B E offset (readTag s B offset)"
  using assms(1)
proof (cases rule: readTag_header_cases [where B = B and s = s])
  case NoId
  then show ?thesis by (simp add: extends_def)
next
  case (NoEBML idd)
  from readEBMLId_append [OF NoEBML(1) assms(1)] NoEBML show ?thesis
    by (simp add: extends_def readTag_def)
next
  case (NoSize idd)
  from readTag_gate_idem [OF readEBMLId_append [OF NoSize(1) assms(1)] NoSize(2)] NoSize(4)
  show ?thesis by (simp add: extends_def)
next
  case (Complete idd sd d)
  let ?id = "toString_hex (idd_id idd)"
  let ?s1 = "s\<lparr>this_ebmlFound := True\<rparr>"
  let ?p = "sd_offset sd"
  note id' = readEBMLId_append [OF Complete(1) assms(1), of E]
  from readEBMLId_Ok [OF Complete(1)] assms(1)
  have o1: "offset < idd_offset idd" "0 \<le> idd_offset idd" by simp_all
  note sd' = readTagDataSize_append [OF Complete(3) o1(2), of E]
  from readTagDataSize_Ok [OF Complete(3)]
  have p: "idd_offset idd < ?p" "?p \<le> int (length B)" by simp_all
  have ext: "readTag s (B @ E) offset = readTagData ?s1 (B @ E) ?id ?p (Ok (Number d))"
    using readTag_complete [OF id' Complete(2) sd'] Complete(4) by simp
  note wf = walkable_step [OF assms(1,2) id' sd' Complete(4)]
  show ?thesis
  proof (cases "TAGS ?id")
    case None
    with wf have d: "0 \<le> d" "walkable (drop (nat (?p + d)) (B @ E))" by simp_all
    show ?thesis
      using None d o1 p Complete(5) ext
      by (auto simp: extends_def readTagData_unknown)
  next
    case (Some b)
    show ?thesis
    proof (cases b)
      case True
      with Some wf have "walkable (drop (nat ?p) (B @ E))" by simp
      then show ?thesis
        using Some True o1 p Complete(5) ext
        by (auto simp: extends_def readTagData_container)
    next
      case False
      with Some have leaf: "TAGS ?id = Some False" by simp
      with wf have d: "0 \<le> d" "walkable (drop (nat (?p + d)) (B @ E))" by simp_all
      show ?thesis
      proof (cases "?p + d > int (length B)")
        case True
        have "readTag ?s1 (B @ E) offset = readTag s (B @ E) offset"
          by (rule readTag_gate_idem [OF id' Complete(2)])
        then show ?thesis
          using True leaf Complete(5) by (simp add: extends_def readTagData_leaf_short)
      next
        case False
        then have le: "?p + d \<le> int (length B)" by simp
        have pp: "0 \<le> ?p" using o1 p by linarith
        have same: "readTag s (B @ E) offset = readTag s B offset"
          using ext Complete(5) readTagData_append [OF leaf pp d(1) le] by simp
        have pd: "readTag s B offset
                  = processData ?s1 ?id (slice B (Number ?p) (Number (?p + d))) (Number (?p + d))"
          using Complete(5) readTagData_leaf [OF leaf le] by simp
        show ?thesis
        proof (cases "readTag s B offset")
          case (Inl x)
          with same show ?thesis by (simp add: extends_def)
        next
          case (Inr y)
          obtain s' r where y: "y = (s', r)" by (cases y)
          from Inr y pd processData_result [of ?s1 ?id _ "Number (?p + d)" s' r]
          have r: "r = Ok \<lparr> r_offset = Number (?p + d), r_skipUntil = None \<rparr>" by simp
          show ?thesis
            using Inr y r same d le o1 p by (auto simp: extends_def)
        qed
      qed
    qed
  qed
qed

lemma skipUntil_None_update: "this_skipUntil s = None \<Longrightarrow> s\<lparr>this_skipUntil := None\<rparr> = s"
  by (cases s) simp

lemma transformLoop_cong_readTag:
  "readTag s' X offset = readTag s X offset \<Longrightarrow> transformLoop s' X offset = transformLoop s X offset"
  by (subst (1 2) transformLoop.simps) simp

lemma transformLoop_Inl:
  "readTag s X offset = Inl x \<Longrightarrow> transformLoop s X offset = Some (Inl x)"
  by (subst transformLoop.simps) simp

lemma transformLoop_short:
  "readTag s X offset = Inr (s', TOO_SHORT) \<Longrightarrow> transformLoop s X offset = Some (Inr (s', offset))"
  by (subst transformLoop.simps) simp

lemma transformLoop_next:
  "readTag s X offset = Inr (s', Ok \<lparr> r_offset = Number o2, r_skipUntil = None \<rparr>) \<Longrightarrow> o2 \<noteq> 0 \<Longrightarrow>
   transformLoop s X offset = transformLoop s' X o2"
  by (subst transformLoop.simps) simp

lemma transformLoop_skip:
  "readTag s X offset = Inr (s', Ok \<lparr> r_offset = off', r_skipUntil = Some (Number T) \<rparr>) \<Longrightarrow> T \<noteq> 0 \<Longrightarrow>
   transformLoop s X offset = Some (Inr (s'\<lparr>this_skipUntil := Some T\<rparr>, offset))"
  by (subst transformLoop.simps) simp

lemma loop_extends:
  assumes "0 \<le> offset" "offset \<le> int (length B)" "0 \<le> this_count s" "this_skipUntil s = None"
    and "walkable (drop (nat offset) (B @ E))"
  shows "\<exists>r. transformLoop s B offset = Some r \<and> loopExt s B E offset r"
  using assms
proof (induction "nat (int (length B) - offset)" arbitrary: s offset rule: less_induct)
  case less
  note ext = readTag_extends [OF less.prems(1,5), of s, unfolded extends_def]
  show ?case
  proof (cases "readTag s B offset")
    case (Inl x)
    with ext have "readTag s (B @ E) offset = Inl x" by simp
    with Inl show ?thesis
      by (simp add: transformLoop_Inl loopExt_def)
  next
    case (Inr y)
    obtain s' r where y: "y = (s', r)" by (cases y)
    from readTag_keeps(2) [of s B offset s' r] Inr y have k: "keeps s s'" by simp
    show ?thesis
    proof (cases r)
      case TOO_SHORT
      with ext Inr y have "readTag s' (B @ E) offset = readTag s (B @ E) offset" by simp
      from transformLoop_cong_readTag [OF this] Inr y TOO_SHORT k less.prems show ?thesis
        by (simp add: transformLoop_short loopExt_def keeps_def)
    next
      case (Ok res)
      show ?thesis
      proof (cases "r_skipUntil res")
        case None
        with ext Inr y Ok obtain o2 where o2: "r_offset res = Number o2" "offset < o2"
          "o2 \<le> int (length B)" "walkable (drop (nat o2) (B @ E))"
          "readTag s (B @ E) offset = Inr (s', Ok res)" by auto
        have res: "res = \<lparr> r_offset = Number o2, r_skipUntil = None \<rparr>"
          using None o2(1) by (cases res) simp
        have nz: "o2 \<noteq> 0" using o2(2) less.prems(1) by simp
        have 1: "transformLoop s B offset = transformLoop s' B o2"
          using Inr y Ok res nz by (intro transformLoop_next) simp_all
        have 2: "transformLoop s (B @ E) offset = transformLoop s' (B @ E) o2"
          using o2(5) res nz by (intro transformLoop_next) simp_all
        have "\<exists>r. transformLoop s' B o2 = Some r \<and> loopExt s' B E o2 r"
          using less.prems o2 k by (intro less.hyps) (simp_all add: keeps_def)
        then obtain r' where r': "transformLoop s' B o2 = Some r'" "loopExt s' B E o2 r'" by blast
        have "loopExt s B E offset r'"
          using r'(2) o2(2) k 2
          by (auto simp: loopExt_def keeps_def split: sum.splits option.splits)
        with 1 r'(1) show ?thesis by simp
      next
        case (Some v)
        with ext Inr y Ok obtain p d where pd: "r_offset res = Number p" "offset < p"
          "p \<le> int (length B)" "0 \<le> d" "v = Number (this_count s + p + d)"
          "int (length B) \<le> p + d" "walkable (drop (nat (p + d)) (B @ E))"
          "readTag s (B @ E) offset
           = Inr (s', Ok (if int (length (B @ E)) > p + d
                          then \<lparr> r_offset = Number (p + d), r_skipUntil = None \<rparr> else res))"
          by auto
        define T where "T = this_count s + p + d"
        have res: "res = \<lparr> r_offset = Number p, r_skipUntil = Some (Number T) \<rparr>"
          using Some pd(1,5) by (cases res) (simp add: T_def)
        have nz: "T \<noteq> 0" "p + d \<noteq> 0"
          using pd(2,4) less.prems(1,3) by (simp_all add: T_def)
        have 1: "transformLoop s B offset = Some (Inr (s'\<lparr>this_skipUntil := Some T\<rparr>, offset))"
          using Inr y Ok res nz by (intro transformLoop_skip) simp_all
        have s'n: "this_skipUntil s' = None" using k less.prems(4) by (simp add: keeps_def)
        have 2: "transformLoop s (B @ E) offset
                 = (if this_count s + int (length (B @ E)) > T
                    then transformLoop (s'\<lparr>this_skipUntil := Some T, this_skipUntil := None\<rparr>) (B @ E) (T - this_count s)
                    else Some (Inr (s'\<lparr>this_skipUntil := Some T\<rparr>, offset)))"
        proof (cases "int (length (B @ E)) > p + d")
          case True
          with pd(8) have "readTag s (B @ E) offset = Inr (s', Ok \<lparr> r_offset = Number (p + d), r_skipUntil = None \<rparr>)"
            by simp
          from transformLoop_next [OF this nz(2)] True s'n show ?thesis
            by (simp add: T_def skipUntil_None_update)
        next
          case False
          with pd(8) res have "readTag s (B @ E) offset = Inr (s', Ok \<lparr> r_offset = Number p, r_skipUntil = Some (Number T) \<rparr>)"
            by simp
          from transformLoop_skip [OF this nz(1)] False show ?thesis
            by (simp add: T_def)
        qed
        have "loopExt s B E offset (Inr (s'\<lparr>this_skipUntil := Some T\<rparr>, offset))"
          using 2 nz pd less.prems k
          by (simp add: loopExt_def keeps_def T_def)
        with 1 show ?thesis by simp
      qed
    qed
  qed
qed

lemma loop_sim:
  assumes "sameCore s t" "this_count t = this_count s + int k" "0 \<le> offset" "k \<le> length B"
    and "0 \<le> this_count s" "walkable (drop (nat offset + k) B)"
  shows "\<exists>r r'. transformLoop s B (offset + int k) = Some r
               \<and> transformLoop t (drop k B) offset = Some r' \<and> obsLoop r = obsLoop r'"
  using assms
proof (induction "nat (int (length B) - (offset + int k))" arbitrary: s t offset rule: less_induct)
  case less
  let ?o = "offset + int k"
  have o: "0 \<le> ?o" using less.prems by simp
  have wf: "walkable (drop (nat ?o) (B @ []))"
    using less.prems by (simp add: nat_add_distrib)
  note ext = readTag_extends [OF o wf, of s, unfolded extends_def]
  note sim = readTag_sim [OF less.prems(1,2,3,4,6)]
  show ?case
  proof (cases "readTag s B ?o")
    case (Inl x)
    obtain e s' where x: "x = (e, s')" by (cases x)
    from sim Inl x obtain t' where t': "readTag t (drop k B) offset = Inl (e, t')" "sameCore s' t'"
      by (cases "readTag t (drop k B) offset") auto
    show ?thesis
      using Inl x t' by (simp add: transformLoop_Inl sameCore_def)
  next
    case (Inr y)
    obtain s' r where y: "y = (s', r)" by (cases y)
    from readTag_keeps(2) [of s B ?o s' r] Inr y have ks: "keeps s s'" by simp
    from sim Inr y obtain t' r' where t': "readTag t (drop k B) offset = Inr (t', r')"
      by (cases "readTag t (drop k B) offset") auto
    from readTag_keeps(2) [OF t'] have kt: "keeps t t'" .
    show ?thesis
    proof (cases r)
      case TOO_SHORT
      with sim Inr y t' have "r' = TOO_SHORT" "sameCore s' t'"
        by (cases r'; simp)+
      with Inr y TOO_SHORT t' show ?thesis
        by (simp add: transformLoop_short sameCore_def)
    next
      case (Ok res)
      with sim Inr y t' obtain res' where res': "r' = Ok res'" "sameCore s' t'"
        "r_skipUntil res = r_skipUntil res'" "r_offset res = js_add (r_offset res') (Number (int k))"
        by (cases r') auto
      show ?thesis
      proof (cases "r_skipUntil res")
        case None
        with ext Inr y Ok obtain o2 where o2: "r_offset res = Number o2" "?o < o2"
          "o2 \<le> int (length B)" "walkable (drop (nat o2) B)" by auto
        have res: "res = \<lparr> r_offset = Number o2, r_skipUntil = None \<rparr>"
          using None o2(1) by (cases res) simp
        have "r_offset res' = Number (o2 - int k)"
          using res'(4) o2(1) by (cases "r_offset res'") simp_all
        then have resp: "res' = \<lparr> r_offset = Number (o2 - int k), r_skipUntil = None \<rparr>"
          using res'(3) None by (cases res') simp
        have nz: "o2 \<noteq> 0" "o2 - int k \<noteq> 0" using o2(2) less.prems(3) by simp_all
        have 1: "transformLoop s B ?o = transformLoop s' B o2"
          using Inr y Ok res nz by (intro transformLoop_next) simp_all
        have 2: "transformLoop t (drop k B) offset = transformLoop t' (drop k B) (o2 - int k)"
          using t' res'(1) resp nz by (intro transformLoop_next) simp_all
        have "nat (o2 - int k) + k = nat o2" using o2(2) less.prems(3) by linarith
        then have "\<exists>r r'. transformLoop s' B ((o2 - int k) + int k) = Some r
               \<and> transformLoop t' (drop k B) (o2 - int k) = Some r' \<and> obsLoop r = obsLoop r'"
          using less.prems o2 ks kt res'(2)
          by (intro less.hyps) (simp_all add: keeps_def)
        with 1 2 show ?thesis by simp
      next
        case (Some v)
        with ext Inr y Ok obtain p d where pd: "r_offset res = Number p" "?o < p"
          "0 \<le> d" "v = Number (this_count s + p + d)" by auto
        define T where "T = this_count s + p + d"
        have res: "res = \<lparr> r_offset = Number p, r_skipUntil = Some (Number T) \<rparr>"
          using Some pd(1,4) by (cases res) (simp add: T_def)
        have resp: "res' = \<lparr> r_offset = r_offset res', r_skipUntil = Some (Number T) \<rparr>"
          using res'(3) Some pd(4) by (cases res') (simp add: T_def)
        have nz: "T \<noteq> 0" using pd(2,3) less.prems(3,5) by (simp add: T_def)
        have 1: "transformLoop s B ?o = Some (Inr (s'\<lparr>this_skipUntil := Some T\<rparr>, ?o))"
          using Inr y Ok res nz by (intro transformLoop_skip) simp_all
        have 2: "transformLoop t (drop k B) offset = Some (Inr (t'\<lparr>this_skipUntil := Some T\<rparr>, offset))"
          using t' res'(1) resp nz by (intro transformLoop_skip [where off' = "r_offset res'"]) simp_all
        show ?thesis using 1 2 res'(2) by (simp add: sameCore_def)
      qed
    qed
  qed
qed

lemma transform_alt:
  "transform s c =
     (let B = rem s @ c;
          s0 = s\<lparr>this_length := this_length s + int (length c), this_remainder := None\<rparr>
      in case this_skipUntil s of
           None \<Rightarrow> finishTransform B (transformLoop s0 B 0)
         | Some T \<Rightarrow>
             if T \<noteq> 0 \<and> this_length s + int (length c) > T then
               finishTransform B (transformLoop (s0\<lparr>this_skipUntil := None\<rparr>) B (T - this_count s))
             else if T \<noteq> 0 then
               Some (Inr (s0\<lparr>this_count := this_count s + int (length B)\<rparr>))
             else finishTransform B (transformLoop s0 B 0))"
  by (cases s) (simp add: transform_def rem_def Let_def split: option.splits)

lemma obs_eq: "obs r = (thrown r, emitted r)"
  by (cases r) auto

lemma finishTransform_Some:
  "\<exists>r. finishTransform B (Some l) = Some r \<and> obs r = obsLoop l"
  by (cases l) (auto simp: finishTransform_def)

lemma finishTransform_Inl: "finishTransform B (Some (Inl x)) = Some (Inl x)"
  by (simp add: finishTransform_def)

lemma finishTransform_Inr:
  "0 \<le> o1 \<Longrightarrow> finishTransform B (Some (Inr (s, o1)))
     = Some (Inr (s\<lparr>this_count := this_count s + o1, this_remainder := Some (drop (nat o1) B)\<rparr>))"
  by (simp add: finishTransform_def slice_from_nonneg)

lemma pass_split:
  assumes o: "0 \<le> offset" "offset \<le> int (length B)"
    and s0: "0 \<le> this_count s0" "this_skipUntil s0 = None"
      "this_length s0 = this_count s0 + int (length B)"
    and wf: "walkable (drop (nat offset) (B @ b))"
    and s1: "sameCore s0 s1" "this_count s1 = this_count s0"
  shows "\<exists>r. finishTransform B (transformLoop s0 B offset) = Some r \<and>
           (case r of
              Inl (e, s') \<Rightarrow>
                (\<exists>r2. finishTransform (B @ b) (transformLoop s1 (B @ b) offset) = Some r2
                   \<and> obs r2 = (Some e, pushed s'))
            | Inr s' \<Rightarrow>
                ready s' b \<and>
                (\<exists>r2 r3. finishTransform (B @ b) (transformLoop s1 (B @ b) offset) = Some r2
                   \<and> transform s' b = Some r3 \<and> obs r2 = obs r3))"
proof -
  from loop_extends [OF o s0(1,2) wf] obtain r
    where r: "transformLoop s0 B offset = Some r" "loopExt s0 B b offset r" by blast
  have "\<exists>q q'. transformLoop s0 (B @ b) (offset + int 0) = Some q
               \<and> transformLoop s1 (drop 0 (B @ b)) offset = Some q' \<and> obsLoop q = obsLoop q'"
    using o s0 s1 wf by (intro loop_sim) simp_all
  then obtain q q' where q: "transformLoop s0 (B @ b) offset = Some q"
    "transformLoop s1 (B @ b) offset = Some q'" "obsLoop q = obsLoop q'" by auto
  from finishTransform_Some [of "B @ b" q'] obtain r2
    where r2: "finishTransform (B @ b) (Some q') = Some r2" "obs r2 = obsLoop q'" by blast
  show ?thesis
  proof (cases r)
    case (Inl x)
    obtain e s' where x: "x = (e, s')" by (cases x)
    from r(2) Inl x q(1) have "q = Inl (e, s')" by (simp add: loopExt_def)
    with q r2 Inl x r(1) show ?thesis
      by (simp add: finishTransform_Inl)
  next
    case (Inr y)
    obtain s' o1 where y: "y = (s', o1)" by (cases y)
    from r(2) Inr y have b: "offset \<le> o1" "o1 \<le> int (length B)" "this_count s' = this_count s0"
      "this_length s' = this_length s0"
      by (simp_all add: loopExt_def)
    then have o1: "0 \<le> o1" using o by simp
    define s'' where "s'' = s'\<lparr>this_count := this_count s' + o1, this_remainder := Some (drop (nat o1) B)\<rparr>"
    have fin: "finishTransform B (transformLoop s0 B offset) = Some (Inr s'')"
      using r(1) Inr y o1 by (simp add: finishTransform_Inr s''_def)
    have rem: "rem s'' = drop (nat o1) B" by (simp add: rem_def s''_def)
    have remb: "rem s'' @ b = drop (nat o1) (B @ b)" using b(2) o1 by (simp add: rem)
    have cnt: "this_count s'' = this_count s0 + o1" "this_length s'' = this_length s0"
      "this_skipUntil s'' = this_skipUntil s'"
      using b by (simp_all add: s''_def)
    define t where "t = s''\<lparr>this_length := this_length s'' + int (length b), this_remainder := None\<rparr>"
    have t: "sameCore s' t" "this_count t = this_count s' + int (nat o1)" "0 \<le> this_count s'"
      using o1 b s0 by (simp_all add: t_def s''_def)
    show ?thesis
    proof (cases "this_skipUntil s'")
      case None
      with r(2) Inr y have n: "walkable (drop (nat o1) (B @ b))"
        "transformLoop s0 (B @ b) offset = transformLoop s' (B @ b) o1"
        by (simp_all add: loopExt_def)
      have ready: "ready s'' b"
        using None n(1) b s0 o1 cnt by (simp add: ready_def rem remb)
      have "\<exists>p p'. transformLoop s' (B @ b) (0 + int (nat o1)) = Some p
               \<and> transformLoop t (drop (nat o1) (B @ b)) 0 = Some p' \<and> obsLoop p = obsLoop p'"
        using t n(1) b o1 by (intro loop_sim) simp_all
      then obtain p p' where p: "transformLoop s' (B @ b) o1 = Some p"
        "transformLoop t (drop (nat o1) (B @ b)) 0 = Some p'" "obsLoop p = obsLoop p'"
        using o1 by auto
      from finishTransform_Some [of "drop (nat o1) (B @ b)" p'] obtain r3
        where r3: "finishTransform (drop (nat o1) (B @ b)) (Some p') = Some r3" "obs r3 = obsLoop p'"
        by blast
      have "this_skipUntil s'' = None" using None by (simp add: s''_def)
      then have "transform s'' b = Some r3"
        using r3(1) p(2) by (simp add: transform_alt Let_def remb t_def [symmetric])
      moreover have "obs r2 = obs r3"
        using r2(2) r3(2) q(3) p(1,3) n(2) q(1) by simp
      ultimately show ?thesis
        using fin Inr r2(1) q(2) ready by auto
    next
      case (Some T)
      with r(2) Inr y have n: "T \<noteq> 0" "this_count s0 + int (length B) \<le> T" "o1 < T - this_count s0"
        "walkable (drop (nat (T - this_count s0)) (B @ b))"
        "transformLoop s0 (B @ b) offset
           = (if this_count s0 + int (length (B @ b)) > T
              then transformLoop (s'\<lparr>this_skipUntil := None\<rparr>) (B @ b) (T - this_count s0)
              else Some (Inr (s', o1)))"
        by (simp_all add: loopExt_def)
      have dd: "nat (T - this_count s0 - o1) + nat o1 = nat (T - this_count s0)"
        using n(3) o1 by linarith
      have sk: "this_skipUntil s'' = Some T" using Some by (simp add: s''_def)
      have "nat (T - (this_count s0 + o1)) + nat o1 = nat (T - this_count s0)"
        using n(3) o1 by linarith
      then have dr: "drop (nat (T - this_count s'')) (rem s'' @ b)
                     = drop (nat (T - this_count s0)) (B @ b)"
        by (simp only: remb cnt drop_drop)
      have w: "walkable (drop (nat (T - this_count s'')) (rem s'' @ b))"
        using n(4) by (simp only: dr)
      have l: "this_length s'' = this_count s'' + int (length (rem s''))" "0 \<le> this_count s''"
        "this_length s'' \<le> T"
        using n(2) b s0 o1 cnt(1,2) by (simp_all add: rem)
      have ready: "ready s'' b"
        unfolding ready_def sk option.case using w l n(1) by blast
      have len: "this_length s'' + int (length b) = this_count s0 + int (length (B @ b))"
        using cnt(2) s0(3) by simp
      show ?thesis
      proof (cases "this_count s0 + int (length (B @ b)) > T")
        case True
        let ?o = "T - (this_count s0 + o1)"
        have "\<exists>p p'. transformLoop (s'\<lparr>this_skipUntil := None\<rparr>) (B @ b) (?o + int (nat o1)) = Some p
                 \<and> transformLoop (t\<lparr>this_skipUntil := None\<rparr>) (drop (nat o1) (B @ b)) ?o = Some p'
                 \<and> obsLoop p = obsLoop p'"
          using t n b o1 dd by (intro loop_sim) (simp_all add: algebra_simps)
        moreover have "?o + int (nat o1) = T - this_count s0" using o1 by simp
        ultimately obtain p p' where p: "transformLoop (s'\<lparr>this_skipUntil := None\<rparr>) (B @ b) (T - this_count s0) = Some p"
          "transformLoop (t\<lparr>this_skipUntil := None\<rparr>) (drop (nat o1) (B @ b)) ?o = Some p'" "obsLoop p = obsLoop p'"
          by (simp only:) blast
        from finishTransform_Some [of "drop (nat o1) (B @ b)" p'] obtain r3
          where r3: "finishTransform (drop (nat o1) (B @ b)) (Some p') = Some r3" "obs r3 = obsLoop p'"
          by blast
        have "transform s'' b
              = finishTransform (rem s'' @ b)
                  (transformLoop (t\<lparr>this_skipUntil := None\<rparr>) (rem s'' @ b) (T - this_count s''))"
          unfolding transform_alt Let_def sk option.case t_def len using True n(1) by simp
        then have "transform s'' b = Some r3"
          using r3(1) p(2) by (simp only: remb cnt)
        moreover have "obs r2 = obs r3"
          using r2(2) r3(2) q(3) p(1,3) n(5) q(1) True by simp
        ultimately show ?thesis
          using fin Inr r2(1) q(2) ready by auto
      next
        case False
        have "transform s'' b = Some (Inr (t\<lparr>this_count := this_count s'' + int (length (rem s'' @ b))\<rparr>))"
          unfolding transform_alt Let_def sk option.case t_def len using False n(1) by simp
        moreover have "obs r2 = (None, pushed s')"
          using r2(2) q(3) n(5) q(1) False by simp
        moreover have "pushed t = pushed s'" using t(1) by (simp add: sameCore_def)
        ultimately show ?thesis
          using fin Inr r2(1) q(2) ready by auto
      qed
    qed
  qed
qed

lemma transform_split:
  assumes "ready s (a @ b)"
  shows "\<exists>r. transform s a = Some r \<and>
           (case r of
              Inl (e, s') \<Rightarrow> (\<exists>r2. transform s (a @ b) = Some r2 \<and> obs r2 = (Some e, pushed s'))
            | Inr s' \<Rightarrow>
                ready s' b \<and>
                (\<exists>r2 r3. transform s (a @ b) = Some r2 \<and> transform s' b = Some r3
                   \<and> obs r2 = obs r3))"
proof -
  define B where "B = rem s @ a"
  define s0 where "s0 = s\<lparr>this_length := this_length s + int (length a), this_remainder := None\<rparr>"
  define s1 where "s1 = s\<lparr>this_length := this_length s + int (length (a @ b)), this_remainder := None\<rparr>"
  have Bb: "rem s @ a @ b = B @ b" by (simp add: B_def)
  from assms have c: "0 \<le> this_count s" "this_length s = this_count s + int (length (rem s))"
    by (simp_all add: ready_def)
  have f0: "this_count s0 = this_count s" "this_length s0 = this_count s0 + int (length B)"
    "this_skipUntil s0 = this_skipUntil s"
    using c by (simp_all add: s0_def B_def)
  have f1: "sameCore s0 s1" "this_count s1 = this_count s0"
    by (simp_all add: s0_def s1_def)
  show ?thesis
  proof (cases "this_skipUntil s")
    case None
    with assms have wf: "walkable (drop (nat 0) (B @ b))" by (simp add: ready_def B_def)
    have ta: "transform s a = finishTransform B (transformLoop s0 B 0)"
      and tb: "transform s (a @ b) = finishTransform (B @ b) (transformLoop s1 (B @ b) 0)"
      unfolding transform_alt Let_def None option.case B_def [symmetric] s0_def [symmetric]
        s1_def [symmetric] Bb by simp_all
    from pass_split [OF _ _ _ _ f0(2) wf f1, unfolded ta [symmetric] tb [symmetric]] c(1) f0 None
    show ?thesis by simp
  next
    case (Some T)
    with assms have T: "T \<noteq> 0" "this_length s \<le> T"
      "walkable (drop (nat (T - this_count s)) (B @ b))"
      by (simp_all add: ready_def B_def)
    show ?thesis
    proof (cases "this_length s + int (length a) > T")
      case True
      then have True': "this_length s + int (length (a @ b)) > T" by simp
      have ta: "transform s a
                = finishTransform B (transformLoop (s0\<lparr>this_skipUntil := None\<rparr>) B (T - this_count s))"
        unfolding transform_alt Let_def Some option.case B_def [symmetric] s0_def [symmetric]
        using T(1) True by simp
      have tb: "transform s (a @ b)
                = finishTransform (B @ b) (transformLoop (s1\<lparr>this_skipUntil := None\<rparr>) (B @ b) (T - this_count s))"
        unfolding transform_alt Let_def Some option.case Bb s1_def [symmetric]
        using T(1) True' by simp
      have o: "0 \<le> T - this_count s" "T - this_count s \<le> int (length B)"
        using T(2) c True by (simp_all add: B_def)
      have "\<exists>r. finishTransform B (transformLoop (s0\<lparr>this_skipUntil := None\<rparr>) B (T - this_count s)) = Some r \<and>
           (case r of
              Inl (e, s') \<Rightarrow>
                (\<exists>r2. finishTransform (B @ b) (transformLoop (s1\<lparr>this_skipUntil := None\<rparr>) (B @ b) (T - this_count s)) = Some r2
                   \<and> obs r2 = (Some e, pushed s'))
            | Inr s' \<Rightarrow>
                ready s' b \<and>
                (\<exists>r2 r3. finishTransform (B @ b) (transformLoop (s1\<lparr>this_skipUntil := None\<rparr>) (B @ b) (T - this_count s)) = Some r2
                   \<and> transform s' b = Some r3 \<and> obs r2 = obs r3))"
        using o c(1) f0 f1 T(3) by (intro pass_split) simp_all
      then show ?thesis unfolding ta tb .
    next
      case False
      define s'' where "s'' = s0\<lparr>this_count := this_count s + int (length B)\<rparr>"
      have ta: "transform s a = Some (Inr s'')"
        unfolding transform_alt Let_def Some option.case B_def [symmetric] s0_def [symmetric] s''_def
        using T(1) False by simp
      have rem: "rem s'' = []" by (simp add: rem_def s''_def s0_def)
      have f2: "this_count s'' = this_count s + int (length B)" "this_length s'' = this_count s''"
        "this_skipUntil s'' = Some T"
        using f0 Some by (simp_all add: s''_def)
      have le: "int (length B) \<le> T - this_count s" using False c by (simp add: B_def)
      then have "nat (T - (this_count s + int (length B))) = nat (T - this_count s) - length B"
        by linarith
      then have dr: "drop (nat (T - this_count s'')) (rem s'' @ b) = drop (nat (T - this_count s)) (B @ b)"
        unfolding rem f2(1) using le by simp
      have w: "walkable (drop (nat (T - this_count s'')) (rem s'' @ b))"
        using T(3) by (simp only: dr)
      have l: "this_length s'' = this_count s'' + int (length (rem s''))" "0 \<le> this_count s''"
        "this_length s'' \<le> T"
        using f2 c(1) le by (simp_all add: rem)
      have ready: "ready s'' b"
        unfolding ready_def f2(3) option.case using w l T(1) by blast
      define t where "t = s''\<lparr>this_length := this_length s'' + int (length b), this_remainder := None\<rparr>"
      have len: "this_length s'' + int (length b) = this_length s + int (length (a @ b))"
        using f2 c by (simp add: B_def)
      show ?thesis
      proof (cases "this_length s + int (length (a @ b)) > T")
        case True
        let ?o = "T - this_count s''"
        have tb: "transform s (a @ b)
                = finishTransform (B @ b) (transformLoop (s1\<lparr>this_skipUntil := None\<rparr>) (B @ b) (T - this_count s))"
          unfolding transform_alt Let_def Some option.case Bb s1_def [symmetric]
          using T(1) True by simp
        have tc: "transform s'' b
              = finishTransform (rem s'' @ b)
                  (transformLoop (t\<lparr>this_skipUntil := None\<rparr>) (rem s'' @ b) ?o)"
          unfolding transform_alt Let_def f2(3) option.case t_def len using True T(1) by simp
        have "nat ?o + length B = nat (T - this_count s)" using le f2(1) by linarith
        then have "\<exists>p p'. transformLoop (s1\<lparr>this_skipUntil := None\<rparr>) (B @ b) (?o + int (length B)) = Some p
                 \<and> transformLoop (t\<lparr>this_skipUntil := None\<rparr>) (drop (length B) (B @ b)) ?o = Some p'
                 \<and> obsLoop p = obsLoop p'"
          using T(3) le f2 c(1) f0(1)
          by (intro loop_sim) (simp_all add: t_def s''_def s0_def s1_def sameCore_def)
        moreover have "?o + int (length B) = T - this_count s" using f2(1) by simp
        ultimately obtain p p' where p: "transformLoop (s1\<lparr>this_skipUntil := None\<rparr>) (B @ b) (T - this_count s) = Some p"
          "transformLoop (t\<lparr>this_skipUntil := None\<rparr>) b ?o = Some p'" "obsLoop p = obsLoop p'"
          by (simp only: drop_append drop_all diff_self_eq_0 drop_0 append_Nil order_refl) blast
        from finishTransform_Some [of "B @ b" p] obtain r2
          where r2: "finishTransform (B @ b) (Some p) = Some r2" "obs r2 = obsLoop p" by blast
        from finishTransform_Some [of b p'] obtain r3
          where r3: "finishTransform b (Some p') = Some r3" "obs r3 = obsLoop p'" by blast
        have "transform s (a @ b) = Some r2" using tb p(1) r2(1) by simp
        moreover have "transform s'' b = Some r3" using tc p(2) r3(1) by (simp add: rem)
        ultimately show ?thesis using ta ready r2(2) r3(2) p(3) by simp
      next
        case False
        have tb: "transform s (a @ b) = Some (Inr (s1\<lparr>this_count := this_count s + int (length (B @ b))\<rparr>))"
          unfolding transform_alt Let_def Some option.case Bb s1_def [symmetric]
          using T(1) False by simp
        have tc: "transform s'' b = Some (Inr (t\<lparr>this_count := this_count s'' + int (length (rem s'' @ b))\<rparr>))"
          unfolding transform_alt Let_def f2(3) option.case t_def len using False T(1) by simp
        have "pushed t = pushed s1" by (simp add: t_def s''_def s0_def s1_def)
        then show ?thesis using ta tb tc ready by simp
      qed
    qed
  qed
qed

lemma writeAll_single: "writeAll s [c] = transform s c"
  by (auto split: option.splits sum.splits)

lemma writeAll_concat:
  assumes "cs \<noteq> []" "ready s (concat cs)"
  shows "\<exists>r1 r2. writeAll s cs = Some r1 \<and> transform s (concat cs) = Some r2 \<and> obs r1 = obs r2"
  using assms
proof (induction cs arbitrary: s rule: list_nonempty_induct)
  case (single c)
  from transform_split [of s c "[]"] single obtain r where "transform s c = Some r" by auto
  then show ?case unfolding writeAll_single by simp
next
  case (cons c cs)
  from cons.prems have "ready s (c @ concat cs)" by simp
  from transform_split [OF this] obtain r where r: "transform s c = Some r"
    "case r of
       Inl (e, s') \<Rightarrow> (\<exists>r2. transform s (c @ concat cs) = Some r2 \<and> obs r2 = (Some e, pushed s'))
     | Inr s' \<Rightarrow>
         ready s' (concat cs) \<and>
         (\<exists>r2 r3. transform s (c @ concat cs) = Some r2 \<and> transform s' (concat cs) = Some r3
            \<and> obs r2 = obs r3)" by blast
  show ?case
  proof (cases r)
    case (Inl x)
    with r show ?thesis by (cases x) auto
  next
    case (Inr s')
    with r have rd: "ready s' (concat cs)"
      and "\<exists>r2 r3. transform s (c @ concat cs) = Some r2 \<and> transform s' (concat cs) = Some r3
            \<and> obs r2 = obs r3" by simp_all
    then obtain r2 r3 where t: "transform s (c @ concat cs) = Some r2"
      "transform s' (concat cs) = Some r3" "obs r2 = obs r3" by blast
    from cons.IH [OF rd] t(2) obtain r1 where "writeAll s' cs = Some r1" "obs r1 = obs r3" by auto
    with t r(1) Inr show ?thesis by simp
  qed
qed

lemma ready_constructor: "walkable X \<Longrightarrow> ready constructor X"
  by (simp add: ready_def rem_def constructor_def)

subsection \<open>Reachable states and their invariants\<close>

lemma loop_reachable:
  assumes "transformLoop s B offset = Some r" "reachable s"
  shows "case r of Inl (e, s') \<Rightarrow> reachable s' | Inr (s', o') \<Rightarrow> reachable s'"
  using assms
proof (induction rule: transformLoop.raw_induct [rotated 1, consumes 1, case_names step])
  case (step loop this chunk offset res)
  note 1 = step
  show ?case
  proof (cases "readTag this chunk offset")
    case (Inl x)
    obtain e s' where x: "x = (e, s')" by (cases x)
    from reachable.throw [OF \<open>reachable this\<close>] Inl x have "reachable s'" by simp
    with 1(2) Inl x show ?thesis by auto
  next
    case (Inr y)
    obtain s' r where y: "y = (s', r)" by (cases y)
    from reachable.read [OF \<open>reachable this\<close>] Inr y have s': "reachable s'" by simp
    then have s'': "reachable (s'\<lparr>this_skipUntil := k\<rparr>)" for k
      by (rule reachable.book) simp
    show ?thesis
    proof (cases r)
      case TOO_SHORT
      with 1(2) Inr y s' show ?thesis by auto
    next
      case (Ok res')
      with 1(2) Inr y s' s'' 1(1) show ?thesis
        by (auto split: option.splits)
    qed
  qed
qed

lemma transform_reachable:
  assumes "transform s c = Some r" "reachable s"
  shows "reachable (finalState r)"
proof -
  have b: "reachable t" if "sameCore s t" for t
    using assms(2) that by (rule reachable.book)
  have fin: "reachable (finalState r)"
    if "finishTransform X (transformLoop t X offset) = Some r" "sameCore s t" for X t offset
  proof -
    from that(1) obtain l where l: "transformLoop t X offset = Some l"
      by (cases "transformLoop t X offset") (auto simp: finishTransform_def)
    from loop_reachable [OF l b [OF that(2)]] that(1) l show ?thesis
      by (cases l) (auto simp: finishTransform_def intro: reachable.book)
  qed
  from assms(1) show ?thesis
    unfolding transform_alt Let_def
    by (auto split: option.splits if_splits intro!: b elim!: fin)
qed

lemma writeAll_reachable:
  assumes "writeAll s cs = Some r" "reachable s"
  shows "reachable (finalState r)"
  using assms
proof (induction cs arbitrary: s)
  case Nil
  then show ?case by auto
next
  case (Cons c cs)
  show ?case
  proof (cases "transform s c")
    case None
    with Cons.prems show ?thesis by simp
  next
    case (Some x)
    from transform_reachable [OF Some Cons.prems(2)] have x: "reachable (finalState x)" .
    show ?thesis
    proof (cases x)
      case (Inl y)
      with Some Cons.prems x show ?thesis by auto
    next
      case (Inr s')
      with Some Cons.prems x Cons.IH [of s'] show ?thesis by auto
    qed
  qed
qed

lemma js_and_15: "0 \<le> js_and x 15 \<and> js_and x 15 < 16"
proof -
  define w where "w = (word_of_int x :: 32 word) AND 15"
  have "w \<le> 15" unfolding w_def by (rule word_and_le1)
  then have u: "uint w \<le> 15" by (simp add: word_le_def)
  have "sint w = signed_take_bit 31 (uint w)"
    by (simp add: sint_uint)
  also have "\<dots> = uint w"
  proof (rule signed_take_bit_int_eq_self)
    have "- (2 ^ 31) \<le> (0::int)" by simp
    also have "0 \<le> uint w" by simp
    finally show "- (2 ^ 31) \<le> uint w" .
    show "uint w < 2 ^ 31" using u by simp
  qed
  finally show ?thesis using u by (simp add: js_and_def w_def [symmetric])
qed

lemma discoverTrack_Some: "this_track s = Some t \<Longrightarrow> discoverTrack s ebmlID data = s"
  by (simp add: discoverTrack_def)

lemma discoverTrack_undiscovered: "undiscovered (discoverTrack s ebmlID data)"
  by (auto simp: discoverTrack_def undiscovered_def Let_def)

lemma discoverTrack_other:
  "ebmlID \<noteq> ''ae'' \<Longrightarrow> ebmlID \<noteq> ''d7'' \<Longrightarrow> ebmlID \<noteq> ''83'' \<Longrightarrow> undiscovered s \<Longrightarrow>
   this_track s = None \<Longrightarrow> discoverTrack s ebmlID data = s"
  by (auto simp: discoverTrack_def undiscovered_def Let_def)

lemma processData_shape:
  "processData s ebmlID data off' = Inl (e, s') \<Longrightarrow> s' = discoverTrack s ebmlID data"
  "processData s ebmlID data off' = Inr (s', r) \<Longrightarrow>
     s' = discoverTrack s ebmlID data
     \<or> (\<exists>t. this_track (discoverTrack s ebmlID data) = Some t
            \<and> Some (js_and (elemInt32 (buf_at data 0)) 15) = map_option uint (number t)
            \<and> s' = (discoverTrack s ebmlID data)
                      \<lparr>pushed := pushed (discoverTrack s ebmlID data) @ [slice_from data (Number 4)]\<rparr>)"
  by (auto simp: processData_def Let_def split: if_splits option.splits)

lemma processData_emitInv:
  assumes "emitInv s"
  shows "processData s ebmlID data off' = Inl (e, s') \<Longrightarrow> emitInv s'"
    and "processData s ebmlID data off' = Inr (s', r) \<Longrightarrow> emitInv s'"
proof -
  define S where "S = discoverTrack s ebmlID data"
  have S: "emitInv S"
  proof (cases "this_track s")
    case None
    with assms have "pushed s = []" by (auto simp: emitInv_def)
    then show ?thesis by (simp add: emitInv_def S_def)
  next
    case (Some t)
    with assms show ?thesis by (simp add: S_def discoverTrack_Some)
  qed
  show "emitInv s'" if "processData s ebmlID data off' = Inl (e, s')"
  proof -
    from processData_shape(1) [OF that] have "s' = S" by (simp only: S_def)
    with S show ?thesis by simp
  qed
  show "emitInv s'" if "processData s ebmlID data off' = Inr (s', r)"
  proof -
    from processData_shape(2) [OF that, folded S_def]
    consider "s' = S"
      | t where "this_track S = Some t"
          "Some (js_and (elemInt32 (buf_at data 0)) 15) = map_option uint (number t)"
          "s' = S\<lparr>pushed := pushed S @ [slice_from data (Number 4)]\<rparr>"
      by blast
    then show ?thesis
    proof cases
      case 1
      with S show ?thesis by simp
    next
      case (2 t)
      from 2(2) obtain n where n: "number t = Some n" "uint n = js_and (elemInt32 (buf_at data 0)) 15"
        by (cases "number t") auto
      with js_and_15 [of "elemInt32 (buf_at data 0)"] have "uint n < 16" by simp
      then have "unat n < 16" unfolding uint_nat by linarith
      with 2(1,3) n(1) show ?thesis by (simp add: emitInv_def)
    qed
  qed
qed

lemma undiscovered_pushed [simp]: "undiscovered (s\<lparr>pushed := xs\<rparr>) = undiscovered s"
  by (simp add: undiscovered_def)

lemma emitInv_ebmlFound [simp]: "emitInv (s\<lparr>this_ebmlFound := b\<rparr>) = emitInv s"
  by (simp add: emitInv_def)

lemma undiscovered_ebmlFound [simp]: "undiscovered (s\<lparr>this_ebmlFound := b\<rparr>) = undiscovered s"
  by (simp add: undiscovered_def)

lemma processData_undiscovered:
  "processData s ebmlID data off' = Inl (e, s') \<Longrightarrow> undiscovered s'"
  "processData s ebmlID data off' = Inr (s', r) \<Longrightarrow> undiscovered s'"
  using discoverTrack_undiscovered [of s ebmlID data]
  by (auto dest!: processData_shape)

text \<open>What \<open>readTagData\<close> does to the state: nothing, or what \<open>processData\<close> does.\<close>

lemma readTagData_state:
  "readTagData s B ebmlID off dl = Inl (e, s') \<Longrightarrow>
     s' = s \<or> (\<exists>data off'. processData s ebmlID data off' = Inl (e, s'))"
  "readTagData s B ebmlID off dl = Inr (s', r) \<Longrightarrow>
     s' = s \<or> (\<exists>data off'. processData s ebmlID data off' = Inr (s', r))"
  by (auto simp: readTagData_def split: option.splits or_short.splits if_splits)

lemma readTag_state:
  "readTag s B offset = Inl (e, s') \<Longrightarrow>
     s' = s \<or> (\<exists>ebmlID off dl. readTagData (s\<lparr>this_ebmlFound := True\<rparr>) B ebmlID off dl = Inl (e, s'))"
  "readTag s B offset = Inr (s', r) \<Longrightarrow>
     s' = s \<or> s' = s\<lparr>this_ebmlFound := True\<rparr>
     \<or> (\<exists>ebmlID off dl. readTagData (s\<lparr>this_ebmlFound := True\<rparr>) B ebmlID off dl = Inr (s', r))"
  by (auto simp: readTag_def Let_def split: or_short.splits if_splits)

lemma readTagData_emitInv:
  assumes "emitInv s"
  shows "readTagData s B ebmlID off dl = Inl (e, s') \<Longrightarrow> emitInv s'"
    and "readTagData s B ebmlID off dl = Inr (s', r) \<Longrightarrow> emitInv s'"
  using assms processData_emitInv [OF assms]
  by (blast dest: readTagData_state)+

lemma readTagData_undiscovered:
  assumes "undiscovered s"
  shows "readTagData s B ebmlID off dl = Inl (e, s') \<Longrightarrow> undiscovered s'"
    and "readTagData s B ebmlID off dl = Inr (s', r) \<Longrightarrow> undiscovered s'"
  using assms processData_undiscovered
  by (blast dest: readTagData_state)+

lemma readTag_emitInv:
  assumes "emitInv s"
  shows "readTag s B offset = Inl (e, s') \<Longrightarrow> emitInv s'"
    and "readTag s B offset = Inr (s', r) \<Longrightarrow> emitInv s'"
proof -
  from assms have a: "emitInv (s\<lparr>this_ebmlFound := True\<rparr>)" by simp
  show "readTag s B offset = Inl (e, s') \<Longrightarrow> emitInv s'"
    using assms readTagData_emitInv(1) [OF a] by (blast dest: readTag_state(1))
  show "readTag s B offset = Inr (s', r) \<Longrightarrow> emitInv s'"
    using assms a readTagData_emitInv(2) [OF a] by (blast dest: readTag_state(2))
qed

lemma readTag_undiscovered:
  assumes "undiscovered s"
  shows "readTag s B offset = Inl (e, s') \<Longrightarrow> undiscovered s'"
    and "readTag s B offset = Inr (s', r) \<Longrightarrow> undiscovered s'"
proof -
  from assms have a: "undiscovered (s\<lparr>this_ebmlFound := True\<rparr>)" by simp
  show "readTag s B offset = Inl (e, s') \<Longrightarrow> undiscovered s'"
    using assms readTagData_undiscovered(1) [OF a] by (blast dest: readTag_state(1))
  show "readTag s B offset = Inr (s', r) \<Longrightarrow> undiscovered s'"
    using assms a readTagData_undiscovered(2) [OF a] by (blast dest: readTag_state(2))
qed

lemma reachable_emitInv: "reachable s \<Longrightarrow> emitInv s"
proof (induction rule: reachable.induct)
  case start
  show ?case by (simp add: emitInv_def constructor_def)
next
  case (read this chunk offset this' result)
  then show ?case by (auto dest: readTag_emitInv(2))
next
  case (throw this chunk offset e this')
  then show ?case by (auto dest: readTag_emitInv(1))
next
  case (book this this')
  then show ?case by (simp add: emitInv_def sameCore_def)
qed

lemma reachable_undiscovered: "reachable s \<Longrightarrow> undiscovered s"
proof (induction rule: reachable.induct)
  case start
  show ?case by (simp add: undiscovered_def constructor_def)
next
  case (read this chunk offset this' result)
  then show ?case by (auto dest: readTag_undiscovered(2))
next
  case (throw this chunk offset e this')
  then show ?case by (auto dest: readTag_undiscovered(1))
next
  case (book this this')
  then show ?case by (simp add: undiscovered_def sameCore_def)
qed

lemma emitted_finalState: "emitted r = pushed (finalState r)"
  by (cases r) auto

lemma ebmlFound_True_update: "this_ebmlFound s \<Longrightarrow> s\<lparr>this_ebmlFound := True\<rparr> = s"
  by (cases s) simp

subsection \<open>The header gate and the skip target\<close>

lemma processData_gate:
  "processData s ebmlID data off' = Inl (e, s') \<Longrightarrow> e \<noteq> EBML_not_found"
  by (auto simp: processData_def Let_def split: if_splits option.splits)

lemma readTagData_gate:
  "readTagData s B ebmlID off dl = Inl (e, s') \<Longrightarrow> e \<noteq> EBML_not_found"
  by (auto simp: readTagData_def split: option.splits or_short.splits if_splits
           dest: processData_gate)

lemma processData_ebmlFound:
  "processData s ebmlID data off' = Inl (e, s') \<Longrightarrow> this_ebmlFound s' = this_ebmlFound s"
  "processData s ebmlID data off' = Inr (s', r) \<Longrightarrow> this_ebmlFound s' = this_ebmlFound s"
  by (auto dest!: processData_shape)

lemma readTagData_ebmlFound:
  "readTagData s B ebmlID off dl = Inl (e, s') \<Longrightarrow> this_ebmlFound s' = this_ebmlFound s"
  "readTagData s B ebmlID off dl = Inr (s', r) \<Longrightarrow> this_ebmlFound s' = this_ebmlFound s"
  by (auto dest!: readTagData_state processData_ebmlFound)

lemma readTag_gate:
  assumes "this_ebmlFound s \<or> (\<exists>idd. readEBMLId B offset = Ok idd \<and> toString_hex (idd_id idd) = ''1a45dfa3'')"
  shows "readTag s B offset = Inl (e, s') \<Longrightarrow> e \<noteq> EBML_not_found \<and> this_ebmlFound s'"
    and "readTag s B offset = Inr (s', r) \<Longrightarrow> this_ebmlFound s'"
proof -
  show "e \<noteq> EBML_not_found \<and> this_ebmlFound s'" if "readTag s B offset = Inl (e, s')"
  proof -
    from that assms obtain ebmlID off dl
      where "readTagData (s\<lparr>this_ebmlFound := True\<rparr>) B ebmlID off dl = Inl (e, s')"
      by (auto simp: readTag_def Let_def split: or_short.splits if_splits)
    from readTagData_gate [OF this] readTagData_ebmlFound(1) [OF this] show ?thesis by simp
  qed
  show "this_ebmlFound s'" if "readTag s B offset = Inr (s', r)"
  proof -
    from that assms consider "s' = s" "this_ebmlFound s" | "s' = s\<lparr>this_ebmlFound := True\<rparr>"
      | ebmlID off dl where "readTagData (s\<lparr>this_ebmlFound := True\<rparr>) B ebmlID off dl = Inr (s', r)"
      by (auto simp: readTag_def Let_def split: or_short.splits if_splits)
    then show ?thesis
    proof cases
      case 3
      from readTagData_ebmlFound(2) [OF this] show ?thesis by simp
    qed simp_all
  qed
qed

lemma loop_gate:
  assumes "transformLoop s B offset = Some l"
    and "this_ebmlFound s \<or> (\<exists>idd. readEBMLId B offset = Ok idd \<and> toString_hex (idd_id idd) = ''1a45dfa3'')"
  shows "gateOk l"
  using assms
proof (induction rule: transformLoop.raw_induct [rotated 1, consumes 1, case_names step])
  case (step loop this chunk offset res)
  note g = readTag_gate [OF step(3)]
  show ?case
  proof (cases "readTag this chunk offset")
    case (Inl x)
    obtain e s' where x: "x = (e, s')" by (cases x)
    from g(1) [of e s'] Inl x step(2) show ?thesis by auto
  next
    case (Inr y)
    obtain s' r where y: "y = (s', r)" by (cases y)
    from g(2) [of s' r] Inr y have s': "this_ebmlFound s'" by simp
    show ?thesis
    proof (cases r)
      case TOO_SHORT
      with step(2) Inr y s' show ?thesis by auto
    next
      case (Ok res')
      with step(2) Inr y s' step(1) show ?thesis
        by (auto split: option.splits)
    qed
  qed
qed

lemma finish_gate:
  assumes "finishTransform X (transformLoop t X offset) = Some r"
    and "this_ebmlFound t \<or> (\<exists>idd. readEBMLId X offset = Ok idd \<and> toString_hex (idd_id idd) = ''1a45dfa3'')"
  shows "gateOk' r"
proof -
  from assms(1) obtain l where l: "transformLoop t X offset = Some l"
    by (cases "transformLoop t X offset") (auto simp: finishTransform_def)
  from loop_gate [OF l assms(2)] assms(1) l show ?thesis
    by (cases l) (auto simp: finishTransform_def)
qed

lemma transform_gate:
  assumes "transform s c = Some r" "this_ebmlFound s"
  shows "gateOk' r"
  using assms unfolding transform_alt Let_def
  by (auto split: option.splits if_splits dest!: finish_gate)

lemma writeAll_gate:
  assumes "writeAll s cs = Some r" "this_ebmlFound s"
  shows "gateOk' r"
  using assms
proof (induction cs arbitrary: s)
  case Nil
  then show ?case by auto
next
  case (Cons c cs)
  show ?case
  proof (cases "transform s c")
    case None
    with Cons.prems show ?thesis by simp
  next
    case (Some x)
    from transform_gate [OF Some Cons.prems(2)] have x: "gateOk' x" .
    show ?thesis
    proof (cases x)
      case (Inl y)
      with Some Cons.prems x show ?thesis by auto
    next
      case (Inr s')
      with Some Cons.prems x Cons.IH [of s'] show ?thesis by auto
    qed
  qed
qed

lemma readTag_no_id:
  "readEBMLId B offset = TOO_SHORT \<Longrightarrow> readTag s B offset = Inr (s, TOO_SHORT)"
  by (simp add: readTag_def)

lemma readTag_not_header:
  "readEBMLId B offset = Ok idd \<Longrightarrow> \<not> this_ebmlFound s \<Longrightarrow>
   toString_hex (idd_id idd) \<noteq> ''1a45dfa3'' \<Longrightarrow> readTag s B offset = Inl (EBML_not_found, s)"
  by (simp add: readTag_def)

text \<open>A chunk that does not complete the first ID is kept whole.\<close>

lemma transform_awaiting:
  assumes "awaiting s" "readEBMLId (rem s @ c) 0 = TOO_SHORT"
  shows "\<exists>s'. transform s c = Some (Inr s') \<and> awaiting s' \<and> rem s' = rem s @ c"
proof -
  define s0 where "s0 = s\<lparr>this_length := this_length s + int (length c), this_remainder := None\<rparr>"
  from assms(1) have n: "this_skipUntil s = None" by (simp add: awaiting_def)
  have "transformLoop s0 (rem s @ c) 0 = Some (Inr (s0, 0))"
    by (rule transformLoop_short [OF readTag_no_id [OF assms(2)]])
  then have "transform s c
             = Some (Inr (s0\<lparr>this_count := this_count s0 + 0,
                              this_remainder := Some (drop (nat 0) (rem s @ c))\<rparr>))"
    unfolding transform_alt Let_def n option.case s0_def [symmetric]
    by (simp only: finishTransform_Inr [OF order_refl])
  moreover have "awaiting (s0\<lparr>this_count := this_count s0 + 0,
                              this_remainder := Some (drop (nat 0) (rem s @ c))\<rparr>)"
    using assms by (simp add: awaiting_def s0_def rem_def)
  moreover have "rem (s0\<lparr>this_count := this_count s0 + 0,
                          this_remainder := Some (drop (nat 0) (rem s @ c))\<rparr>) = rem s @ c"
    by (simp add: rem_def)
  ultimately show ?thesis by blast
qed

lemma writeAll_not_header:
  assumes "awaiting s" "readEBMLId (rem s @ concat cs) 0 = Ok idd"
    and "toString_hex (idd_id idd) \<noteq> ''1a45dfa3''"
  shows "\<exists>s'. writeAll s cs = Some (Inl (EBML_not_found, s')) \<and> pushed s' = []"
  using assms(1,2)
proof (induction cs arbitrary: s)
  case Nil
  then show ?case by (simp add: awaiting_def)
next
  case (Cons c cs)
  show ?case
  proof (cases "readEBMLId (rem s @ c) 0")
    case TOO_SHORT
    from transform_awaiting [OF Cons.prems(1) TOO_SHORT] obtain s'
      where s': "transform s c = Some (Inr s')" "awaiting s'" "rem s' = rem s @ c" by blast
    from Cons.prems(2) s'(3) have "readEBMLId (rem s' @ concat cs) 0 = Ok idd" by simp
    from Cons.IH [OF s'(2) this] s'(1) show ?thesis by simp
  next
    case (Ok idd')
    from readEBMLId_append [OF Ok order_refl, of "concat cs"] Cons.prems(2)
    have "idd' = idd" by simp
    define s0 where "s0 = s\<lparr>this_length := this_length s + int (length c), this_remainder := None\<rparr>"
    from Cons.prems(1) have n: "this_skipUntil s = None" "\<not> this_ebmlFound s0" "pushed s0 = []"
      by (simp_all add: awaiting_def s0_def)
    have "readTag s0 (rem s @ c) 0 = Inl (EBML_not_found, s0)"
      using Ok \<open>idd' = idd\<close> n(2) assms(3) by (intro readTag_not_header) simp_all
    from transformLoop_Inl [OF this]
    have "transform s c = Some (Inl (EBML_not_found, s0))"
      unfolding transform_alt Let_def n(1) option.case s0_def [symmetric]
      by (simp only: finishTransform_Inl)
    with n(3) show ?thesis by simp
  qed
qed

lemma writeAll_header:
  assumes "awaiting s" "readEBMLId (rem s @ concat cs) 0 = Ok idd"
    and "toString_hex (idd_id idd) = ''1a45dfa3''" "writeAll s cs = Some r"
  shows "gateOk' r"
  using assms(1,2,4)
proof (induction cs arbitrary: s)
  case Nil
  then show ?case by (simp add: awaiting_def)
next
  case (Cons c cs)
  show ?case
  proof (cases "readEBMLId (rem s @ c) 0")
    case TOO_SHORT
    from transform_awaiting [OF Cons.prems(1) TOO_SHORT] obtain s'
      where s': "transform s c = Some (Inr s')" "awaiting s'" "rem s' = rem s @ c" by blast
    from Cons.prems(2) s'(3) have "readEBMLId (rem s' @ concat cs) 0 = Ok idd" by simp
    from Cons.IH [OF s'(2) this] s'(1) Cons.prems(3) show ?thesis by simp
  next
    case (Ok idd')
    from readEBMLId_append [OF Ok order_refl, of "concat cs"] Cons.prems(2)
    have "idd' = idd" by simp
    define s0 where "s0 = s\<lparr>this_length := this_length s + int (length c), this_remainder := None\<rparr>"
    from Cons.prems(1) have n: "this_skipUntil s = None" by (simp add: awaiting_def)
    have t: "transform s c = finishTransform (rem s @ c) (transformLoop s0 (rem s @ c) 0)"
      unfolding transform_alt Let_def n option.case s0_def [symmetric] ..
    show ?thesis
    proof (cases "transform s c")
      case None
      with Cons.prems(3) show ?thesis by simp
    next
      case (Some x)
      have "gateOk' x"
        using Some [unfolded t] Ok \<open>idd' = idd\<close> assms(3) by (intro finish_gate) auto
      then show ?thesis
      proof (cases x)
        case (Inl y)
        with Some Cons.prems(3) \<open>gateOk' x\<close> show ?thesis by auto
      next
        case (Inr s')
        with \<open>gateOk' x\<close> have "this_ebmlFound s'" by simp
        from writeAll_gate [OF _ this, of cs r] Some Inr Cons.prems(3) show ?thesis by simp
      qed
    qed
  qed
qed

lemma awaiting_constructor: "awaiting constructor" "rem constructor = []"
  by (simp_all add: awaiting_def rem_def constructor_def readEBMLId_def vintLength_def Let_def)

text \<open>A chunk that ends at or before the skip target is dropped whole.\<close>

lemma transform_skipping:
  assumes "this_skipUntil s = Some T" "T \<noteq> 0" "this_length s + int (length c) \<le> T"
  shows "transform s c
         = Some (Inr (s\<lparr>this_length := this_length s + int (length c), this_remainder := None,
                         this_count := this_count s + int (length (rem s @ c))\<rparr>))"
  using assms unfolding transform_alt Let_def by simp

lemma writeAll_skipping:
  assumes "this_skipUntil s = Some T" "T \<noteq> 0" "this_length s + int (length (concat cs)) \<le> T"
  shows "\<exists>s'. writeAll s cs = Some (Inr s') \<and> sameCore s s' \<and> this_skipUntil s' = Some T
           \<and> this_length s' = this_length s + int (length (concat cs))"
  using assms
proof (induction cs arbitrary: s)
  case Nil
  then show ?case by simp
next
  case (Cons c cs)
  define s1 where "s1 = s\<lparr>this_length := this_length s + int (length c), this_remainder := None,
                         this_count := this_count s + int (length (rem s @ c))\<rparr>"
  have le: "this_length s + int (length c) \<le> T"
    using Cons.prems(3) by (simp only: concat.simps length_append of_nat_add)
  have t: "transform s c = Some (Inr s1)"
    unfolding s1_def using Cons.prems(1,2) le by (rule transform_skipping)
  have "\<exists>s'. writeAll s1 cs = Some (Inr s') \<and> sameCore s1 s' \<and> this_skipUntil s' = Some T
           \<and> this_length s' = this_length s1 + int (length (concat cs))"
    using Cons.prems by (intro Cons.IH) (simp_all add: s1_def)
  then obtain s' where s': "writeAll s1 cs = Some (Inr s')" "sameCore s1 s'"
    "this_skipUntil s' = Some T" "this_length s' = this_length s1 + int (length (concat cs))"
    by blast
  have "sameCore s s1" by (simp add: s1_def)
  from sameCore_trans [OF this s'(2)] t s' show ?case
    by (simp add: s1_def)
qed

subsection \<open>Payload blocks with a size field of one byte\<close>























subsection \<open>Chunking of walkable streams\<close>

text \<open>
  On a walkable stream the cut into chunks does not matter: writing the chunks one at a
  time and writing the whole stream as one chunk both end, with the same units emitted and
  the same exception raised, if any.
\<close>

lemma chunking_of_walkable_streams:
  assumes "walkable (concat chunks)"
  shows "\<exists>r1 r2. writeAll constructor chunks = Some r1
           \<and> writeAll constructor [concat chunks] = Some r2
           \<and> emitted r1 = emitted r2 \<and> thrown r1 = thrown r2"
proof (cases "chunks = []")
  case True
  have "transform constructor [] = Some (Inr (constructor\<lparr>this_remainder := Some []\<rparr>))"
    by code_simp
  with True show ?thesis by (simp add: constructor_def)
next
  case False
  from writeAll_concat [OF False ready_constructor [OF assms]] show ?thesis
    unfolding writeAll_single obs_eq by auto
qed

section \<open>Chunking\<close>

text \<open>
  C1: writing a stream chunk by chunk emits the same units, in the same order, as writing
  it as one chunk. The code decodes the size of a tag with the 32-bit fold of
  \<^verbatim>\<open>expandVint\<close>, and the property fails on a stream with a tag that declares
  \<open>2^31\<close> bytes or more. In the stream below the header and a track entry (number 3,
  audio type 2) are followed by an unknown tag \<^verbatim>\<open>ec\<close> whose size field
  \<^verbatim>\<open>01 00 00 84 ff ff ff f2\<close> declares \<open>0x84fffffff2\<close> bytes and decodes to
  \<open>-14\<close>, and by a block of track 3 with the payload \<^verbatim>\<open>07\<close>. Written as two chunks,
  cut in front of the tag \<^verbatim>\<open>ec\<close>, the stream emits the unit \<^verbatim>\<open>07\<close>; written as one
  chunk it emits nothing and is left with the skip target 49021200.
\<close>

theorem chunking_changes_the_units_of_a_huge_tag:
  "vintLength [0x01, 0x00, 0x00, 0x84, 0xff, 0xff, 0xff, 0xf2] 0 = Ok 8
   \<and> expandVint [0x01, 0x00, 0x00, 0x84, 0xff, 0xff, 0xff, 0xf2] 0 8 = Ok (Number (- 14))
   \<and> writeAll constructor
         [[0x1a, 0x45, 0xdf, 0xa3, 0x80, 0xae, 0x80, 0xd7, 0x81, 0x03, 0x83, 0x81, 0x02],
          [0xec, 0x01, 0x00, 0x00, 0x84, 0xff, 0xff, 0xff, 0xf2,
           0xa3, 0x85, 0x83, 0, 0, 0, 7]]
       = Some (Inr \<lparr> this_remainder = Some [], this_length = 29, this_count = 29,
                        this_skipUntil = None,
                        this_track = Some \<lparr> number = Some 3, type = Some 2 \<rparr>,
                        this_incompleteTrack = \<lparr> number = Some 3, type = Some 2 \<rparr>,
                        this_ebmlFound = True, pushed = [[7]] \<rparr>)
   \<and> writeAll constructor
         [[0x1a, 0x45, 0xdf, 0xa3, 0x80, 0xae, 0x80, 0xd7, 0x81, 0x03, 0x83, 0x81, 0x02,
           0xec, 0x01, 0x00, 0x00, 0x84, 0xff, 0xff, 0xff, 0xf2,
           0xa3, 0x85, 0x83, 0, 0, 0, 7]]
       = Some (Inr \<lparr> this_remainder =
                          Some [0x81, 0x03, 0x83, 0x81, 0x02,
                                0xec, 0x01, 0x00, 0x00, 0x84, 0xff, 0xff, 0xff, 0xf2,
                                0xa3, 0x85, 0x83, 0, 0, 0, 7],
                        this_length = 29, this_count = 8, this_skipUntil = Some 49021200,
                        this_track = Some \<lparr> number = Some 3, type = Some 2 \<rparr>,
                        this_incompleteTrack = \<lparr> number = Some 3, type = Some 2 \<rparr>,
                        this_ebmlFound = True, pushed = [] \<rparr>)"
  by code_simp

section \<open>The variable-length integer reader on its edge cases\<close>

text \<open>
  C2: decoding the length-prefixed encoding of \<open>v\<close> gives \<open>v\<close> back, for every
  \<open>v\<close> that fits 1 to 8 encoded bytes. The code folds the bytes with the 32-bit
  operator \<^verbatim>\<open><<\<close>, so the property fails from \<open>2^31\<close> on: the five bytes
  \<^verbatim>\<open>08 80 00 00 00\<close> encode \<open>2^31 = 2147483648\<close> (length marker in bit 3 of the first
  byte, 35 payload bits), \<^verbatim>\<open>vintLength\<close> finds the 5 bytes, and \<^verbatim>\<open>expandVint\<close>
  returns \<open>-2147483648\<close>.
\<close>

theorem expandVint_wraps_at_2_31:
  "vintLength [0x08, 0x80, 0, 0, 0] 0 = Ok 5
   \<and> expandVint [0x08, 0x80, 0, 0, 0] 0 5 = Ok (Number (- 2147483648))"
  by code_simp

text \<open>
  C6: a length field whose marker byte is all zero is a fatal error. The scan of
  \<^verbatim>\<open>vintLength\<close> finds no bit, leaves the loop with \<open>i = 8\<close> and returns the
  length 9; no exception exists for it. On the stream below (the EBML header, then a tag
  \<^verbatim>\<open>ec\<close> whose size field starts with the byte 0) the parser raises nothing and
  takes the nine bytes \<^verbatim>\<open>00 .. 00 02\<close> as a size of 2.
\<close>

theorem vintLength_zero_marker_is_9:
  "vintLength [0, 0, 0, 0, 0, 0, 0, 0, 0] 0 = Ok 9
   \<and> expandVint [0, 0, 0, 0, 0, 0, 0, 0, 2] 0 9 = Ok (Number 2)
   \<and> transform constructor
         [0x1a, 0x45, 0xdf, 0xa3, 0x80, 0xec, 0, 0, 0, 0, 0, 0, 0, 0, 2, 7, 7, 0xec]
       = Some (Inr \<lparr> this_remainder = Some [0xec], this_length = 18, this_count = 17,
                        this_skipUntil = None, this_track = None,
                        this_incompleteTrack = \<lparr> number = None, type = None \<rparr>,
                        this_ebmlFound = True, pushed = [] \<rparr>)"
  by code_simp

section \<open>Track discovery\<close>

text \<open>
  C5: the accumulator of the incomplete track is emptied at each track entry
  (\<^verbatim>\<open>ae\<close>). In the code \<^verbatim>\<open>ae\<close> is registered as a tag with children, so
  \<^verbatim>\<open>_readTag\<close> returns before the line that empties the accumulator. On the stream
  below (header; a track entry with number 1 and type 1; a track entry with type 2 only)
  the number 1 of the first entry and the type 2 of the second are combined into the
  discovered track.
\<close>

theorem track_entry_does_not_reset:
  "transform constructor
     [0x1a, 0x45, 0xdf, 0xa3, 0x80,
      0xae, 0x80, 0xd7, 0x81, 0x01, 0x83, 0x81, 0x01,
      0xae, 0x80, 0x83, 0x81, 0x02]
   = Some (Inr \<lparr> this_remainder = Some [], this_length = 18, this_count = 18,
                    this_skipUntil = None,
                    this_track = Some \<lparr> number = Some 1, type = Some 2 \<rparr>,
                    this_incompleteTrack = \<lparr> number = Some 1, type = Some 2 \<rparr>,
                    this_ebmlFound = True, pushed = [] \<rparr>)"
  by code_simp

section \<open>Fatal errors of the leaf tags\<close>

text \<open>
  C7: a codec-signature tag (\<^verbatim>\<open>63a2\<close>) that is fully buffered and whose first 8 data
  bytes are not \<^verbatim>\<open>OpusHead\<close> makes the parser fail with the unsupported-codec error,
  whether a track has been discovered or not (there is no hypothesis on
  \<open>this_track\<close>); nothing is pushed. The tag is read in a stream whose header has been
  seen (\<open>this_ebmlFound\<close>): the first tag of a stream is the business of the header gate.
\<close>

theorem codec_mismatch_fails:
  assumes "this_ebmlFound this"
    and "readEBMLId chunk offset = Ok idData" "toString_hex (idd_id idData) = ''63a2''"
    and "readTagDataSize chunk (idd_offset idData) = Ok sizeData"
    and "sd_dataLength sizeData = Ok (Number n)"
    and "sd_offset sizeData + n \<le> int (length chunk)"
    and "slice (slice chunk (Number (sd_offset sizeData)) (Number (sd_offset sizeData + n)))
               (Number 0) (Number 8) \<noteq> OPUS_HEAD"
  shows "\<exists>this'. readTag this chunk offset = Inl (Not_opus, this')
           \<and> transformLoop this chunk offset = Some (Inl (Not_opus, this'))
           \<and> pushed this' = pushed this"
proof -
  have tags: "TAGS ''63a2'' = Some False" by (simp add: TAGS_def)
  let ?data = "slice chunk (Number (sd_offset sizeData)) (Number (sd_offset sizeData + n))"
  have "readTag this chunk offset
        = readTagData this chunk ''63a2'' (sd_offset sizeData) (Ok (Number n))"
    using readTag_complete [OF assms(2) _ assms(4)] assms(1,3,5)
    by (simp add: ebmlFound_True_update)
  also have "\<dots> = processData this ''63a2'' ?data (Number (sd_offset sizeData + n))"
    by (rule readTagData_leaf [OF tags assms(6)])
  also have "\<dots> = Inl (Not_opus, discoverTrack this ''63a2'' ?data)"
    using assms(7) by (simp add: processData_def Let_def)
  finally have "readTag this chunk offset = Inl (Not_opus, discoverTrack this ''63a2'' ?data)" .
  then show ?thesis by (simp add: transformLoop_Inl)
qed

theorem codec_mismatch_fails_witness:
  "readEBMLId [0x1a, 0x45, 0xdf, 0xa3, 0x80, 0x63, 0xa2, 0x88,
               0x4f, 0x70, 0x75, 0x73, 0x48, 0x65, 0x61, 0x21] 5
     = Ok \<lparr> idd_id = [0x63, 0xa2], idd_offset = 7 \<rparr>
   \<and> toString_hex [0x63, 0xa2] = ''63a2''
   \<and> readTagDataSize [0x1a, 0x45, 0xdf, 0xa3, 0x80, 0x63, 0xa2, 0x88,
                        0x4f, 0x70, 0x75, 0x73, 0x48, 0x65, 0x61, 0x21] 7
       = Ok \<lparr> sd_offset = 8, sd_dataLength = Ok (Number 8), sd_sizeLength = 1 \<rparr>
   \<and> slice (slice [0x1a, 0x45, 0xdf, 0xa3, 0x80, 0x63, 0xa2, 0x88,
                     0x4f, 0x70, 0x75, 0x73, 0x48, 0x65, 0x61, 0x21] (Number 8) (Number 16))
             (Number 0) (Number 8) \<noteq> OPUS_HEAD
   \<and> (\<exists>this'. transformLoop (constructor\<lparr>this_ebmlFound := True\<rparr>)
                  [0x1a, 0x45, 0xdf, 0xa3, 0x80, 0x63, 0xa2, 0x88,
                   0x4f, 0x70, 0x75, 0x73, 0x48, 0x65, 0x61, 0x21] 5
                = Some (Inl (Not_opus, this'))
              \<and> pushed this' = [])"
proof -
  let ?chunk = "[0x1a, 0x45, 0xdf, 0xa3, 0x80, 0x63, 0xa2, 0x88,
                 0x4f, 0x70, 0x75, 0x73, 0x48, 0x65, 0x61, 0x21] :: buffer"
  have g: "this_ebmlFound (constructor\<lparr>this_ebmlFound := True\<rparr>)" by simp
  have i: "readEBMLId ?chunk 5 = Ok \<lparr> idd_id = [0x63, 0xa2], idd_offset = 7 \<rparr>"
    by code_simp
  have h: "toString_hex (idd_id \<lparr> idd_id = [0x63, 0xa2], idd_offset = 7 \<rparr>) = ''63a2''"
    by code_simp
  have z: "readTagDataSize ?chunk (idd_offset \<lparr> idd_id = [0x63, 0xa2], idd_offset = 7 \<rparr>)
           = Ok \<lparr> sd_offset = 8, sd_dataLength = Ok (Number 8), sd_sizeLength = 1 \<rparr>"
    by code_simp
  have m: "slice (slice ?chunk (Number 8) (Number 16)) (Number 0) (Number 8) \<noteq> OPUS_HEAD"
    by code_simp
  from codec_mismatch_fails [OF g i h z, of 8] m i h z
  show ?thesis by (auto simp: constructor_def)
qed

text \<open>
  C8: a payload block (\<^verbatim>\<open>a3\<close>) that is fully buffered and read before any audio track
  has been discovered makes the parser fail with the no-audio-track error; the state is
  left as it was, so nothing is emitted for the block. The state is any state a run can
  be in (\<open>reachable\<close>) after the header has been seen.
\<close>

theorem payload_block_before_track_fails:
  assumes "reachable this" "this_track this = None" "this_ebmlFound this"
    and "readEBMLId chunk offset = Ok idData" "toString_hex (idd_id idData) = ''a3''"
    and "readTagDataSize chunk (idd_offset idData) = Ok sizeData"
    and "sd_dataLength sizeData = Ok (Number n)"
    and "sd_offset sizeData + n \<le> int (length chunk)"
  shows "readTag this chunk offset = Inl (No_audio_track, this)
         \<and> transformLoop this chunk offset = Some (Inl (No_audio_track, this))"
proof -
  have tags: "TAGS ''a3'' = Some False" by (simp add: TAGS_def)
  from reachable_undiscovered [OF assms(1)] assms(2)
  have d: "discoverTrack this ''a3'' data = this" for data
    by (intro discoverTrack_other) simp_all
  have "readTag this chunk offset
        = readTagData this chunk ''a3'' (sd_offset sizeData) (Ok (Number n))"
    using readTag_complete [OF assms(4) _ assms(6)] assms(3,5,7)
    by (simp add: ebmlFound_True_update)
  also have "\<dots> = processData this ''a3''
                     (slice chunk (Number (sd_offset sizeData)) (Number (sd_offset sizeData + n)))
                     (Number (sd_offset sizeData + n))"
    by (rule readTagData_leaf [OF tags assms(8)])
  also have "\<dots> = Inl (No_audio_track, this)"
    using assms(2) by (simp add: processData_def d)
  finally have "readTag this chunk offset = Inl (No_audio_track, this)" .
  then show ?thesis by (simp add: transformLoop_Inl)
qed

theorem payload_block_before_track_fails_witness:
  "reachable \<lparr> this_remainder = None, this_length = 0, this_count = 0, this_skipUntil = None,
               this_track = None, this_incompleteTrack = \<lparr> number = None, type = None \<rparr>,
               this_ebmlFound = True, pushed = [] \<rparr>
   \<and> readEBMLId [0x1a, 0x45, 0xdf, 0xa3, 0x80, 0xa3, 0x85, 0x83, 1, 2, 3, 4] 5
       = Ok \<lparr> idd_id = [0xa3], idd_offset = 6 \<rparr>
   \<and> toString_hex [0xa3] = ''a3''
   \<and> readTagDataSize [0x1a, 0x45, 0xdf, 0xa3, 0x80, 0xa3, 0x85, 0x83, 1, 2, 3, 4] 6
       = Ok \<lparr> sd_offset = 7, sd_dataLength = Ok (Number 5), sd_sizeLength = 1 \<rparr>
   \<and> transformLoop
         \<lparr> this_remainder = None, this_length = 0, this_count = 0, this_skipUntil = None,
           this_track = None, this_incompleteTrack = \<lparr> number = None, type = None \<rparr>,
           this_ebmlFound = True, pushed = [] \<rparr>
         [0x1a, 0x45, 0xdf, 0xa3, 0x80, 0xa3, 0x85, 0x83, 1, 2, 3, 4] 5
       = Some (Inl (No_audio_track,
                    \<lparr> this_remainder = None, this_length = 0, this_count = 0,
                      this_skipUntil = None, this_track = None,
                      this_incompleteTrack = \<lparr> number = None, type = None \<rparr>,
                      this_ebmlFound = True, pushed = [] \<rparr>))"
proof -
  let ?s = "\<lparr> this_remainder = None, this_length = 0, this_count = 0, this_skipUntil = None,
              this_track = None, this_incompleteTrack = \<lparr> number = None, type = None \<rparr>,
              this_ebmlFound = True, pushed = [] \<rparr>"
  let ?chunk = "[0x1a, 0x45, 0xdf, 0xa3, 0x80, 0xa3, 0x85, 0x83, 1, 2, 3, 4] :: buffer"
  have "readTag constructor [0x1a, 0x45, 0xdf, 0xa3, 0x80] 0
        = Inr (?s, Ok \<lparr> r_offset = Number 5, r_skipUntil = None \<rparr>)"
    by code_simp
  from reachable.read [OF reachable.start this] have r: "reachable ?s" .
  have i: "readEBMLId ?chunk 5 = Ok \<lparr> idd_id = [0xa3], idd_offset = 6 \<rparr>"
    by code_simp
  have h: "toString_hex (idd_id \<lparr> idd_id = [0xa3], idd_offset = 6 \<rparr>) = ''a3''"
    by code_simp
  have z: "readTagDataSize ?chunk (idd_offset \<lparr> idd_id = [0xa3], idd_offset = 6 \<rparr>)
           = Ok \<lparr> sd_offset = 7, sd_dataLength = Ok (Number 5), sd_sizeLength = 1 \<rparr>"
    by code_simp
  from payload_block_before_track_fails [OF r _ _ i h z, of 5] r i h z
  show ?thesis by simp
qed

section \<open>The track number of the emitted units\<close>

text \<open>
  C10: the track reference of a block is the low 4 bits of its first byte and is compared
  with the whole track number. So in every state a run can be in, also in the middle of a
  chunk, a unit has been emitted only if the discovered track has a number below 16 (first
  part); and when a run has ended, it has emitted a unit only if that number is below 16,
  and it has emitted nothing if the number is 16 or more (second part).
\<close>

theorem units_need_a_4_bit_track_number:
  "(reachable this \<and> pushed this \<noteq> []
      \<longrightarrow> (\<exists>t n. this_track this = Some t \<and> number t = Some n \<and> unat n < 16))
   \<and> (writeAll constructor chunks = Some r
      \<longrightarrow> (emitted r \<noteq> [] \<longrightarrow>
             (\<exists>t n. this_track (finalState r) = Some t \<and> number t = Some n \<and> unat n < 16))
          \<and> (\<forall>t n. this_track (finalState r) = Some t \<and> number t = Some n \<and> 16 \<le> unat n
                 \<longrightarrow> emitted r = []))"
proof (intro conjI impI)
  assume "reachable this \<and> pushed this \<noteq> []"
  then show "\<exists>t n. this_track this = Some t \<and> number t = Some n \<and> unat n < 16"
    using reachable_emitInv [of this] by (simp add: emitInv_def)
next
  assume w: "writeAll constructor chunks = Some r"
  from writeAll_reachable [OF w reachable.start] have e: "emitInv (finalState r)"
    by (rule reachable_emitInv)
  { assume "emitted r \<noteq> []"
    with e show "\<exists>t n. this_track (finalState r) = Some t \<and> number t = Some n \<and> unat n < 16"
      by (simp add: emitInv_def emitted_finalState) }
  from e show "\<forall>t n. this_track (finalState r) = Some t \<and> number t = Some n \<and> 16 \<le> unat n
                 \<longrightarrow> emitted r = []"
    by (auto simp: emitInv_def emitted_finalState)
qed

theorem units_need_a_4_bit_track_number_witness:
  "reachable \<lparr> this_remainder = Some [], this_length = 20, this_count = 20,
                    this_skipUntil = None,
                    this_track = Some \<lparr> number = Some 3, type = Some 2 \<rparr>,
                    this_incompleteTrack = \<lparr> number = Some 3, type = Some 2 \<rparr>,
                    this_ebmlFound = True, pushed = [[4]] \<rparr>
   \<and> writeAll constructor
     [[0x1a, 0x45, 0xdf, 0xa3, 0x80, 0xae, 0x80, 0xd7, 0x81, 0x03, 0x83, 0x81, 0x02],
      [0xa3, 0x85, 0x83, 1, 2, 3, 4]]
   = Some (Inr \<lparr> this_remainder = Some [], this_length = 20, this_count = 20,
                    this_skipUntil = None,
                    this_track = Some \<lparr> number = Some 3, type = Some 2 \<rparr>,
                    this_incompleteTrack = \<lparr> number = Some 3, type = Some 2 \<rparr>,
                    this_ebmlFound = True, pushed = [[4]] \<rparr>)
   \<and> unat (3 :: byte) < 16
   \<and> writeAll constructor
         [[0x1a, 0x45, 0xdf, 0xa3, 0x80, 0xae, 0x80, 0xd7, 0x81, 0x13, 0x83, 0x81, 0x02],
          [0xa3, 0x85, 0x83, 1, 2, 3, 4]]
       = Some (Inr \<lparr> this_remainder = Some [], this_length = 20, this_count = 20,
                        this_skipUntil = None,
                        this_track = Some \<lparr> number = Some 19, type = Some 2 \<rparr>,
                        this_incompleteTrack = \<lparr> number = Some 19, type = Some 2 \<rparr>,
                        this_ebmlFound = True, pushed = [] \<rparr>)
   \<and> 16 \<le> unat (19 :: byte)"
proof -
  let ?s = "\<lparr> this_remainder = Some [], this_length = 20, this_count = 20,
                    this_skipUntil = None,
                    this_track = Some \<lparr> number = Some (3 :: byte), type = Some (2 :: byte) \<rparr>,
                    this_incompleteTrack = \<lparr> number = Some 3, type = Some 2 \<rparr>,
                    this_ebmlFound = True, pushed = [[4 :: byte]] \<rparr>"
  let ?c = "[[0x1a, 0x45, 0xdf, 0xa3, 0x80, 0xae, 0x80, 0xd7, 0x81, 0x13, 0x83, 0x81, 0x02],
          [0xa3, 0x85, 0x83, 1, 2, 3, 4]] :: buffer list"
  have a: "writeAll constructor
     [[0x1a, 0x45, 0xdf, 0xa3, 0x80, 0xae, 0x80, 0xd7, 0x81, 0x03, 0x83, 0x81, 0x02],
      [0xa3, 0x85, 0x83, 1, 2, 3, 4]] = Some (Inr ?s)"
    by code_simp
  have b: "writeAll constructor ?c
       = Some (Inr \<lparr> this_remainder = Some [], this_length = 20, this_count = 20,
                        this_skipUntil = None,
                        this_track = Some \<lparr> number = Some 19, type = Some 2 \<rparr>,
                        this_incompleteTrack = \<lparr> number = Some 19, type = Some 2 \<rparr>,
                        this_ebmlFound = True, pushed = [] \<rparr>)"
    by code_simp
  from writeAll_reachable [OF a reachable.start] have r: "reachable ?s" by simp
  from units_need_a_4_bit_track_number [of ?s _ "Inr ?s"] units_need_a_4_bit_track_number [where chunks = ?c] r a b
  show ?thesis by simp
qed

section \<open>The header gate\<close>

text \<open>
  C4: when the first complete tag ID of the stream is not the ID of the EBML header
  (\<^verbatim>\<open>1a45dfa3\<close>), the parser fails with the missing-header error and has emitted
  nothing, however the stream is cut into chunks. When it is the ID of the header, the gate
  is cleared and no run, however long, ever ends with that error.
\<close>

theorem header_gate:
  assumes "readEBMLId (concat chunks) 0 = Ok idData"
  shows "(toString_hex (idd_id idData) \<noteq> ''1a45dfa3'' \<longrightarrow>
            (\<exists>this'. writeAll constructor chunks = Some (Inl (EBML_not_found, this'))
               \<and> pushed this' = []))
         \<and> (toString_hex (idd_id idData) = ''1a45dfa3'' \<longrightarrow>
              (\<forall>r. writeAll constructor chunks = Some r \<longrightarrow>
                 thrown r \<noteq> Some EBML_not_found \<and> this_ebmlFound (finalState r)))"
proof -
  from assms have a: "readEBMLId (rem constructor @ concat chunks) 0 = Ok idData"
    by (simp add: awaiting_constructor)
  show ?thesis
    using writeAll_not_header [OF awaiting_constructor(1) a]
      writeAll_header [OF awaiting_constructor(1) a]
    by auto
qed

theorem header_gate_witness:
  "readEBMLId (concat [[0x18, 0x53], [0x80, 0x67, 0x80]]) 0
     = Ok \<lparr> idd_id = [0x18, 0x53, 0x80, 0x67], idd_offset = 4 \<rparr>
   \<and> toString_hex [0x18, 0x53, 0x80, 0x67] \<noteq> ''1a45dfa3''
   \<and> writeAll constructor [[0x18, 0x53], [0x80, 0x67, 0x80]]
       = Some (Inl (EBML_not_found,
                    \<lparr> this_remainder = None, this_length = 5, this_count = 0,
                      this_skipUntil = None, this_track = None,
                      this_incompleteTrack = \<lparr> number = None, type = None \<rparr>,
                      this_ebmlFound = False, pushed = [] \<rparr>))
   \<and> readEBMLId (concat [[0x1a, 0x45], [0xdf, 0xa3, 0x80, 0xa3, 0x81, 0x00]]) 0
       = Ok \<lparr> idd_id = [0x1a, 0x45, 0xdf, 0xa3], idd_offset = 4 \<rparr>
   \<and> toString_hex [0x1a, 0x45, 0xdf, 0xa3] = ''1a45dfa3''
   \<and> writeAll constructor [[0x1a, 0x45], [0xdf, 0xa3, 0x80, 0xa3, 0x81, 0x00]]
       = Some (Inl (No_audio_track,
                    \<lparr> this_remainder = None, this_length = 8, this_count = 0,
                      this_skipUntil = None, this_track = None,
                      this_incompleteTrack = \<lparr> number = None, type = None \<rparr>,
                      this_ebmlFound = True, pushed = [] \<rparr>))"
proof -
  have a: "readEBMLId (concat [[0x18, 0x53], [0x80, 0x67, 0x80]]) 0
           = Ok \<lparr> idd_id = [0x18, 0x53, 0x80, 0x67], idd_offset = 4 \<rparr>"
    by code_simp
  have a': "toString_hex [0x18, 0x53, 0x80, 0x67] \<noteq> ''1a45dfa3''"
    by code_simp
  have b: "readEBMLId (concat [[0x1a, 0x45], [0xdf, 0xa3, 0x80, 0xa3, 0x81, 0x00]]) 0
           = Ok \<lparr> idd_id = [0x1a, 0x45, 0xdf, 0xa3], idd_offset = 4 \<rparr>"
    by code_simp
  have b': "toString_hex [0x1a, 0x45, 0xdf, 0xa3] = ''1a45dfa3''"
    by code_simp
  have c: "writeAll constructor [[0x1a, 0x45], [0xdf, 0xa3, 0x80, 0xa3, 0x81, 0x00]]
       = Some (Inl (No_audio_track,
                    \<lparr> this_remainder = None, this_length = 8, this_count = 0,
                      this_skipUntil = None, this_track = None,
                      this_incompleteTrack = \<lparr> number = None, type = None \<rparr>,
                      this_ebmlFound = True, pushed = [] \<rparr>))"
    by code_simp
  have d: "writeAll constructor [[0x18, 0x53], [0x80, 0x67, 0x80]]
       = Some (Inl (EBML_not_found,
                    \<lparr> this_remainder = None, this_length = 5, this_count = 0,
                      this_skipUntil = None, this_track = None,
                      this_incompleteTrack = \<lparr> number = None, type = None \<rparr>,
                      this_ebmlFound = False, pushed = [] \<rparr>))"
    by code_simp
  from header_gate [OF a] header_gate [OF b] a a' b b' c d
  show ?thesis by simp
qed

section \<open>Skipping an unknown tag\<close>

text \<open>
  C3: an unknown tag whose declared size goes beyond the working buffer sets one absolute
  skip target, the stream position behind its data, and until the stream has reached that
  position no tag is read and nothing is emitted. The code takes the size from the 32-bit
  fold of \<^verbatim>\<open>expandVint\<close>. In the stream below the header and a track entry (number 3,
  audio type 2) are followed by an unknown tag \<^verbatim>\<open>ec\<close> whose size field
  \<^verbatim>\<open>09 00 00 00 00\<close> declares \<open>2^32 = 4294967296\<close> bytes, of which 7 are in the
  buffer. The size decodes to 0, so no skip target is set, the walker goes on inside the
  data of the tag, reads the block of track 3 that is there and emits its payload
  \<^verbatim>\<open>07\<close>.
\<close>

theorem huge_unknown_tag_is_not_skipped:
  "vintLength [0x09, 0, 0, 0, 0] 0 = Ok 5
   \<and> expandVint [0x09, 0, 0, 0, 0] 0 5 = Ok (Number 0)
   \<and> transform constructor
         [0x1a, 0x45, 0xdf, 0xa3, 0x80, 0xae, 0x80, 0xd7, 0x81, 0x03, 0x83, 0x81, 0x02,
          0xec, 0x09, 0, 0, 0, 0,
          0xa3, 0x85, 0x83, 0, 0, 0, 7]
       = Some (Inr \<lparr> this_remainder = Some [], this_length = 26, this_count = 26,
                        this_skipUntil = None,
                        this_track = Some \<lparr> number = Some 3, type = Some 2 \<rparr>,
                        this_incompleteTrack = \<lparr> number = Some 3, type = Some 2 \<rparr>,
                        this_ebmlFound = True, pushed = [[7]] \<rparr>)"
  by code_simp

section \<open>The blocks of the discovered track\<close>



end
